theory Spec2Isabelle
  imports Complex_Main "HOL-Library.Word" "HOL-Library.Log_Nat" "HOL-Library.Multiset"
begin

section \<open>Constants of the benchmark\<close>

text \<open>
  The source fixes two compile-time constants of type \<open>size_t\<close>. The kernels are written
  with AVX-512 intrinsics, so the target is x86-64 and \<open>size_t\<close> is an unsigned 64-bit
  integer; \<open>int\<close> is a signed 32-bit integer.
\<close>

type_synonym size_t = "64 word"
type_synonym cint = "32 word"

definition ITERATIONS :: size_t where
  "ITERATIONS = 100000000"

definition UNROLL :: size_t where
  "UNROLL = 10"

section \<open>Binary floating point\<close>

text \<open>
  The source computes in \<open>float\<close> (the vector lanes and the sink) and in \<open>double\<close>
  (the throughput figures). Both are IEEE 754 binary formats, given here by their
  precision (number of significand bits) and largest exponent. A finite value is the
  rational number it denotes; the two zeros are not distinguished (the divisors of the
  program are \<open>1e9\<close> and a difference of two time stamps, neither of which is \<open>-0\<close>),
  and a NaN has no sign. The only results of the program that would carry one, \<open>-0.0\<close>
  and \<open>-nan\<close>, come from an operation count of zero over a negative or a zero elapsed
  time; they are \<open>Fin 0\<close> and \<open>NaN\<close> here, and no iteration count the program passes is
  zero.
\<close>

record format =
  prec :: nat
  emax :: int

definition binary32 :: format where
  "binary32 = \<lparr>prec = 24, emax = 127\<rparr>"

definition binary64 :: format where
  "binary64 = \<lparr>prec = 53, emax = 1023\<rparr>"

definition emin :: "format \<Rightarrow> int" where
  "emin fmt = 1 - emax fmt"

datatype fp = Fin rat | PInf | NInf | NaN

definition pow2 :: "int \<Rightarrow> rat" where
  "pow2 k = (if 0 \<le> k then 2 ^ nat k else 1 / 2 ^ nat (- k))"

text \<open>The binary exponent of a positive rational: \<open>pow2 (ilog2 y) \<le> y < pow2 (ilog2 y + 1)\<close>.\<close>

definition ilog2 :: "rat \<Rightarrow> int" where
  "ilog2 y = (let (a, b) = quotient_of y; k = bitlen a - bitlen b
              in if pow2 k \<le> y then k else k - 1)"

definition round_half_even :: "rat \<Rightarrow> int" where
  "round_half_even q =
     (let f = \<lfloor>q\<rfloor>; d = q - of_int f
      in if d < 1 / 2 then f else if 1 / 2 < d then f + 1
         else if even f then f else f + 1)"

text \<open>
  Rounding a positive magnitude to the nearest value of the format, ties to even: the
  spacing of the format at \<open>y\<close> is \<open>pow2 e\<close>, with the exponent clamped below for the
  subnormal range.
\<close>

definition round_mag :: "format \<Rightarrow> rat \<Rightarrow> rat" where
  "round_mag fmt y =
     (let e = max (ilog2 y) (emin fmt) - (int (prec fmt) - 1)
      in of_int (round_half_even (y / pow2 e)) * pow2 e)"

text \<open>The exponent of the last place of the format at \<open>y\<close>, as \<open>round_mag\<close> computes it.\<close>

definition spacing :: "format \<Rightarrow> rat \<Rightarrow> int" where
  "spacing fmt y = max (ilog2 y) (emin fmt) - (int (prec fmt) - 1)"

text \<open>
  The result of an operation is its exact result rounded; a rounded magnitude beyond the
  largest finite value of the format is an infinity.
\<close>

definition rnd :: "format \<Rightarrow> rat \<Rightarrow> fp" where
  "rnd fmt r =
     (if r = 0 then Fin 0
      else let v = round_mag fmt \<bar>r\<bar>
           in if pow2 (emax fmt + 1) \<le> v then (if 0 < r then PInf else NInf)
              else Fin (if 0 < r then v else - v))"

fun fadd :: "format \<Rightarrow> fp \<Rightarrow> fp \<Rightarrow> fp" where
  "fadd fmt (Fin x) (Fin y) = rnd fmt (x + y)"
| "fadd fmt NaN b = NaN"
| "fadd fmt a NaN = NaN"
| "fadd fmt PInf NInf = NaN"
| "fadd fmt NInf PInf = NaN"
| "fadd fmt PInf b = PInf"
| "fadd fmt NInf b = NInf"
| "fadd fmt a PInf = PInf"
| "fadd fmt a NInf = NInf"

text \<open>The sign of a value that is not a NaN, for the products and quotients of infinities.\<close>

fun sign_of :: "fp \<Rightarrow> rat option" where
  "sign_of (Fin x) = Some (sgn x)"
| "sign_of PInf = Some 1"
| "sign_of NInf = Some (- 1)"
| "sign_of NaN = None"

definition signed_inf :: "rat \<Rightarrow> fp" where
  "signed_inf s = (if s = 0 then NaN else if 0 < s then PInf else NInf)"

fun fmul :: "format \<Rightarrow> fp \<Rightarrow> fp \<Rightarrow> fp" where
  "fmul fmt (Fin x) (Fin y) = rnd fmt (x * y)"
| "fmul fmt a b =
     (case (sign_of a, sign_of b) of
        (Some s, Some t) \<Rightarrow> signed_inf (s * t)
      | _ \<Rightarrow> NaN)"

text \<open>
  Division: a finite non-zero value over zero is an infinity of the dividend's sign, zero
  over zero is a NaN, and nothing raises.
\<close>

fun fdiv :: "format \<Rightarrow> fp \<Rightarrow> fp \<Rightarrow> fp" where
  "fdiv fmt (Fin x) (Fin y) = (if y = 0 then signed_inf (sgn x) else rnd fmt (x / y))"
| "fdiv fmt NaN b = NaN"
| "fdiv fmt a NaN = NaN"
| "fdiv fmt (Fin x) b = Fin 0"
| "fdiv fmt a (Fin y) =
     (case sign_of a of Some s \<Rightarrow> signed_inf (if y < 0 then - s else s) | None \<Rightarrow> NaN)"
| "fdiv fmt a b = NaN"

text \<open>Fused multiply-add: \<open>a * b + c\<close> with a single rounding of the exact result.\<close>

fun ffma :: "format \<Rightarrow> fp \<Rightarrow> fp \<Rightarrow> fp \<Rightarrow> fp" where
  "ffma fmt (Fin x) (Fin y) (Fin z) = rnd fmt (x * y + z)"
| "ffma fmt (Fin x) (Fin y) c = c"
| "ffma fmt a b c = fadd fmt (fmul fmt a b) c"

text \<open>The largest finite value of a format.\<close>

definition largest_finite :: "format \<Rightarrow> rat" where
  "largest_finite fmt = pow2 (emax fmt + 1) - pow2 (emax fmt + 1 - int (prec fmt))"

text \<open>Literals and conversions of the source.\<close>

definition float_lit :: "rat \<Rightarrow> fp" where
  "float_lit r = rnd binary32 r"

definition double_lit :: "rat \<Rightarrow> fp" where
  "double_lit r = rnd binary64 r"

definition double_of_size :: "size_t \<Rightarrow> fp" where
  "double_of_size n = rnd binary64 (of_nat (unat n))"

definition double_of_int :: "int \<Rightarrow> fp" where
  "double_of_int n = rnd binary64 (of_int n)"

section \<open>The vector kernels\<close>

text \<open>
  A 512-bit vector register is the list of its lanes: 16 lanes of \<open>float\<close> in a
  \<open>__m512\<close>, 8 lanes of \<open>double\<close> in a \<open>__m512d\<close>. The intrinsics act lane by lane.
\<close>

type_synonym vec = "fp list"

definition mm512_set1_ps :: "fp \<Rightarrow> vec" where
  "mm512_set1_ps x = replicate 16 x"

definition mm512_set1_pd :: "fp \<Rightarrow> vec" where
  "mm512_set1_pd x = replicate 8 x"

definition fmadd_lanes :: "format \<Rightarrow> vec \<Rightarrow> vec \<Rightarrow> vec \<Rightarrow> vec" where
  "fmadd_lanes fmt a b c = map (\<lambda>(x, y, z). ffma fmt x y z) (zip a (zip b c))"

definition mm512_fmadd_ps :: "vec \<Rightarrow> vec \<Rightarrow> vec \<Rightarrow> vec" where
  "mm512_fmadd_ps a b c = fmadd_lanes binary32 a b c"

definition mm512_fmadd_pd :: "vec \<Rightarrow> vec \<Rightarrow> vec \<Rightarrow> vec" where
  "mm512_fmadd_pd a b c = fmadd_lanes binary64 a b c"

text \<open>
  The horizontal sum adds the upper half of the register to the lower half until one
  lane is left (the order of the compiler's header; no property below depends on the
  order). An empty register, which the kernels never build, sums to zero.
\<close>

definition add_halves :: "format \<Rightarrow> vec \<Rightarrow> vec" where
  "add_halves fmt v =
     map (\<lambda>(x, y). fadd fmt x y) (zip (take (length v div 2) v) (drop (length v div 2) v))"

definition mm512_reduce_add_ps :: "vec \<Rightarrow> fp" where
  "mm512_reduce_add_ps v =
     (case (add_halves binary32 ^^ 4) v of [] \<Rightarrow> Fin 0 | x # _ \<Rightarrow> x)"

definition mm512_reduce_add_pd :: "vec \<Rightarrow> fp" where
  "mm512_reduce_add_pd v =
     (case (add_halves binary64 ^^ 3) v of [] \<Rightarrow> Fin 0 | x # _ \<Rightarrow> x)"

text \<open>The ten accumulators \<open>v0\<close> to \<open>v9\<close> of a kernel, local to each call.\<close>

record bank =
  v0 :: vec
  v1 :: vec
  v2 :: vec
  v3 :: vec
  v4 :: vec
  v5 :: vec
  v6 :: vec
  v7 :: vec
  v8 :: vec
  v9 :: vec

definition accumulators :: "bank \<Rightarrow> vec list" where
  "accumulators s = [v0 s, v1 s, v2 s, v3 s, v4 s, v5 s, v6 s, v7 s, v8 s, v9 s]"

subsection \<open>Single precision\<close>

definition sp_init :: bank where
  "sp_init =
     \<lparr>v0 = mm512_set1_ps (float_lit (1)),
      v1 = mm512_set1_ps (float_lit (9999 / 10000)),
      v2 = mm512_set1_ps (float_lit (9998 / 10000)),
      v3 = mm512_set1_ps (float_lit (9997 / 10000)),
      v4 = mm512_set1_ps (float_lit (9996 / 10000)),
      v5 = mm512_set1_ps (float_lit (9995 / 10000)),
      v6 = mm512_set1_ps (float_lit (9994 / 10000)),
      v7 = mm512_set1_ps (float_lit (9993 / 10000)),
      v8 = mm512_set1_ps (float_lit (9992 / 10000)),
      v9 = mm512_set1_ps (float_lit (9991 / 10000))\<rparr>"

definition sp_mul :: vec where
  "sp_mul = mm512_set1_ps (float_lit (10000001 / 10000000))"

definition sp_add :: vec where
  "sp_add = mm512_set1_ps (float_lit (1 / 10000000))"

text \<open>The body of the loop: ten independent fused multiply-adds.\<close>

definition sp_step :: "bank \<Rightarrow> bank" where
  "sp_step s =
     \<lparr>v0 = mm512_fmadd_ps (v0 s) sp_mul sp_add,
      v1 = mm512_fmadd_ps (v1 s) sp_mul sp_add,
      v2 = mm512_fmadd_ps (v2 s) sp_mul sp_add,
      v3 = mm512_fmadd_ps (v3 s) sp_mul sp_add,
      v4 = mm512_fmadd_ps (v4 s) sp_mul sp_add,
      v5 = mm512_fmadd_ps (v5 s) sp_mul sp_add,
      v6 = mm512_fmadd_ps (v6 s) sp_mul sp_add,
      v7 = mm512_fmadd_ps (v7 s) sp_mul sp_add,
      v8 = mm512_fmadd_ps (v8 s) sp_mul sp_add,
      v9 = mm512_fmadd_ps (v9 s) sp_mul sp_add\<rparr>"

text \<open>The value stored to the volatile \<open>sink\<close>: the ten horizontal sums, added from the left.\<close>

definition sp_sink :: "bank \<Rightarrow> fp" where
  "sp_sink s =
     fadd binary32 (fadd binary32 (fadd binary32 (fadd binary32 (fadd binary32 (fadd binary32 (fadd binary32 (fadd binary32 (fadd binary32 (mm512_reduce_add_ps (v0 s))
        (mm512_reduce_add_ps (v1 s)))
        (mm512_reduce_add_ps (v2 s)))
        (mm512_reduce_add_ps (v3 s)))
        (mm512_reduce_add_ps (v4 s)))
        (mm512_reduce_add_ps (v5 s)))
        (mm512_reduce_add_ps (v6 s)))
        (mm512_reduce_add_ps (v7 s)))
        (mm512_reduce_add_ps (v8 s)))
        (mm512_reduce_add_ps (v9 s))"

subsection \<open>Double precision\<close>

definition dp_init :: bank where
  "dp_init =
     \<lparr>v0 = mm512_set1_pd (double_lit (1)),
      v1 = mm512_set1_pd (double_lit (9999 / 10000)),
      v2 = mm512_set1_pd (double_lit (9998 / 10000)),
      v3 = mm512_set1_pd (double_lit (9997 / 10000)),
      v4 = mm512_set1_pd (double_lit (9996 / 10000)),
      v5 = mm512_set1_pd (double_lit (9995 / 10000)),
      v6 = mm512_set1_pd (double_lit (9994 / 10000)),
      v7 = mm512_set1_pd (double_lit (9993 / 10000)),
      v8 = mm512_set1_pd (double_lit (9992 / 10000)),
      v9 = mm512_set1_pd (double_lit (9991 / 10000))\<rparr>"

definition dp_mul :: vec where
  "dp_mul = mm512_set1_pd (double_lit (10000001 / 10000000))"

definition dp_add :: vec where
  "dp_add = mm512_set1_pd (double_lit (1 / 10000000))"

definition dp_step :: "bank \<Rightarrow> bank" where
  "dp_step s =
     \<lparr>v0 = mm512_fmadd_pd (v0 s) dp_mul dp_add,
      v1 = mm512_fmadd_pd (v1 s) dp_mul dp_add,
      v2 = mm512_fmadd_pd (v2 s) dp_mul dp_add,
      v3 = mm512_fmadd_pd (v3 s) dp_mul dp_add,
      v4 = mm512_fmadd_pd (v4 s) dp_mul dp_add,
      v5 = mm512_fmadd_pd (v5 s) dp_mul dp_add,
      v6 = mm512_fmadd_pd (v6 s) dp_mul dp_add,
      v7 = mm512_fmadd_pd (v7 s) dp_mul dp_add,
      v8 = mm512_fmadd_pd (v8 s) dp_mul dp_add,
      v9 = mm512_fmadd_pd (v9 s) dp_mul dp_add\<rparr>"

definition dp_sink :: "bank \<Rightarrow> fp" where
  "dp_sink s =
     fadd binary64 (fadd binary64 (fadd binary64 (fadd binary64 (fadd binary64 (fadd binary64 (fadd binary64 (fadd binary64 (fadd binary64 (mm512_reduce_add_pd (v0 s))
        (mm512_reduce_add_pd (v1 s)))
        (mm512_reduce_add_pd (v2 s)))
        (mm512_reduce_add_pd (v3 s)))
        (mm512_reduce_add_pd (v4 s)))
        (mm512_reduce_add_pd (v5 s)))
        (mm512_reduce_add_pd (v6 s)))
        (mm512_reduce_add_pd (v7 s)))
        (mm512_reduce_add_pd (v8 s)))
        (mm512_reduce_add_pd (v9 s))"

subsection \<open>The loop\<close>

text \<open>
  \<open>for (size_t i = 0; i < iterations; i++) { ... }\<close> with the counter a 64-bit word.
  The counter cannot wrap: it is incremented only while it is below \<open>iterations\<close>.
\<close>

lemma unat_succ_below:
  fixes i n :: "'a::len word"
  assumes "i < n"
  shows "unat (i + 1) = Suc (unat i)"
proof -
  have "i \<noteq> - 1"
    using assms by auto
  then have "1 + i \<noteq> 0"
    by (metis add.commute eq_neg_iff_add_eq_0)
  then show ?thesis
    by (simp add: unatSuc add.commute)
qed

function kernel_loop :: "(bank \<Rightarrow> bank) \<Rightarrow> size_t \<Rightarrow> size_t \<Rightarrow> bank \<Rightarrow> bank" where
  "kernel_loop body i iterations s =
     (if i < iterations then kernel_loop body (i + 1) iterations (body s) else s)"
  by pat_completeness auto
termination
proof (relation "measure (\<lambda>(body, i, iterations, s). unat iterations - unat i)")
  show "wf (measure (\<lambda>(body, i, iterations, s). unat iterations - unat i))"
    by simp
next
  fix body :: "bank \<Rightarrow> bank" and i iterations :: size_t and s :: bank
  assume lt: "i < iterations"
  then have "unat (i + 1) = Suc (unat i)"
    by (rule unat_succ_below)
  moreover from lt have "unat i < unat iterations"
    by (simp add: word_less_nat_alt)
  ultimately show "((body, i + 1, iterations, body s), (body, i, iterations, s))
      \<in> measure (\<lambda>(body, i, iterations, s). unat iterations - unat i)"
    by simp
qed

declare kernel_loop.simps [simp del]

subsection \<open>One lane\<close>

text \<open>
  For the statements about the kernels: the ten seeds as the source writes them, the
  update of one lane, the bank whose accumulator \<open>k\<close> has \<open>f\<close> of seed \<open>k\<close> in each of
  its lanes, and the sum of a list of values from the left.
\<close>

definition seeds :: "rat list" where
  "seeds = [1, 9999 / 10000, 9998 / 10000, 9997 / 10000, 9996 / 10000,
            9995 / 10000, 9994 / 10000, 9993 / 10000, 9992 / 10000, 9991 / 10000]"

definition sp_update :: "fp \<Rightarrow> fp" where
  "sp_update x = ffma binary32 x (float_lit (10000001 / 10000000)) (float_lit (1 / 10000000))"

definition dp_update :: "fp \<Rightarrow> fp" where
  "dp_update x = ffma binary64 x (double_lit (10000001 / 10000000)) (double_lit (1 / 10000000))"

definition sum_from_left :: "format \<Rightarrow> fp list \<Rightarrow> fp" where
  "sum_from_left fmt xs = (case xs of [] \<Rightarrow> Fin 0 | x # rest \<Rightarrow> foldl (fadd fmt) x rest)"

definition splat_bank :: "nat \<Rightarrow> (rat \<Rightarrow> fp) \<Rightarrow> bank" where
  "splat_bank k f =
     \<lparr>v0 = replicate k (f 1), v1 = replicate k (f (9999 / 10000)),
      v2 = replicate k (f (9998 / 10000)), v3 = replicate k (f (9997 / 10000)),
      v4 = replicate k (f (9996 / 10000)), v5 = replicate k (f (9995 / 10000)),
      v6 = replicate k (f (9994 / 10000)), v7 = replicate k (f (9993 / 10000)),
      v8 = replicate k (f (9992 / 10000)), v9 = replicate k (f (9991 / 10000))\<rparr>"

section \<open>The timing harness\<close>

text \<open>
  Each benchmark function reads the clock before and after its loop, stores the sum of
  the accumulators to a volatile sink and returns the number of floating-point operations
  divided by the elapsed seconds. The clock is the environment's: \<open>elapsed\<close> is the value
  of \<open>elapsed.count()\<close>, a finite \<open>double\<close> obtained from two time stamps. What a call
  does is the value it stores to the sink and the value it returns.
\<close>

record outcome =
  sink :: fp
  returned :: fp

definition sp_flops :: "size_t \<Rightarrow> fp" where
  "sp_flops iterations =
     fmul binary64 (fmul binary64 (fmul binary64 (double_of_size iterations)
       (double_of_size UNROLL)) (double_of_int 16)) (double_of_int 2)"

definition benchmark_avx512_sp :: "size_t \<Rightarrow> rat \<Rightarrow> outcome" where
  "benchmark_avx512_sp iterations elapsed =
     (let s = kernel_loop sp_step 0 iterations sp_init;
          flops = sp_flops iterations
      in \<lparr>sink = sp_sink s, returned = fdiv binary64 flops (Fin elapsed)\<rparr>)"

definition dp_flops :: "size_t \<Rightarrow> fp" where
  "dp_flops iterations =
     fmul binary64 (fmul binary64 (fmul binary64 (double_of_size iterations)
       (double_of_size UNROLL)) (double_of_int 8)) (double_of_int 2)"

definition benchmark_avx512_dp :: "size_t \<Rightarrow> rat \<Rightarrow> outcome" where
  "benchmark_avx512_dp iterations elapsed =
     (let s = kernel_loop dp_step 0 iterations dp_init;
          flops = dp_flops iterations
      in \<lparr>sink = dp_sink s, returned = fdiv binary64 flops (Fin elapsed)\<rparr>)"

section \<open>Splitting the iteration budget\<close>

text \<open>
  \<open>size_t iterations_per_thread = ITERATIONS / num_threads;\<close>
  The \<open>int\<close> operand is converted to \<open>size_t\<close> (sign extension, \<open>scast\<close>) and the
  division is the unsigned one. Division by zero is undefined behaviour in the source and
  is the value \<open>None\<close> here. The budget is a parameter of \<open>per_thread_share\<close> so that
  the division can be stated for any budget; the source always passes \<open>ITERATIONS\<close>.
\<close>

definition per_thread_share :: "size_t \<Rightarrow> cint \<Rightarrow> size_t option" where
  "per_thread_share budget num_threads =
     (if (scast num_threads :: size_t) = 0 then None
      else Some (budget div scast num_threads))"

definition iterations_per_thread :: "cint \<Rightarrow> size_t option" where
  "iterations_per_thread num_threads = per_thread_share ITERATIONS num_threads"

text \<open>
  The two spawn loops \<open>for (int i = 0; i < num_threads; i++)\<close> hand the same captured
  \<open>iterations_per_thread\<close> to every worker: the list of the arguments the workers are
  called with, in the order of the worker ids.
\<close>

definition worker_ids :: "cint \<Rightarrow> nat list" where
  "worker_ids num_threads = [0 ..< nat (sint num_threads)]"

definition worker_shares :: "size_t \<Rightarrow> cint \<Rightarrow> size_t list option" where
  "worker_shares budget num_threads =
     map_option (\<lambda>share. map (\<lambda>i. share) (worker_ids num_threads))
       (per_thread_share budget num_threads)"

section \<open>The report driver\<close>

text \<open>
  The environment of a run: whether the processor implements the AVX-512 instructions
  the kernels are compiled to, the value of \<open>std::thread::hardware_concurrency()\<close>, and
  for every kernel call the elapsed seconds its two clock readings give.
\<close>

datatype precision = Single | Double

datatype call = Single_thread precision | Worker cint precision nat

record machine =
  avx512f :: bool
  hardware_concurrency :: "32 word"
  elapsed_of :: "call \<Rightarrow> rat"

text \<open>
  What ends a run early. The source has no check of the processor and catches nothing:
  a vector instruction the processor does not implement raises the invalid-opcode
  exception and the process is killed; \<open>std::vector<double>(num_threads)\<close> with a
  negative \<open>num_threads\<close> throws, and the uncaught exception terminates the process; the
  division \<open>ITERATIONS / num_threads\<close> by zero is undefined (a divide error on x86).
\<close>

datatype fault = Illegal_instruction | Bad_vector_size | Divide_error

datatype status = Running | Exited int | Killed fault

text \<open>
  Each benchmark function executes vector instructions from its first statement on
  (\<open>_mm512_set1_ps\<close>, \<open>_mm512_set1_pd\<close>, then the fused updates of the loop). On a
  processor without them the call faults and never returns. Whether the compiled code
  has read the clock by then is not fixed by the source, and no result depends on it.
\<close>

definition benchmark_of :: "precision \<Rightarrow> size_t \<Rightarrow> rat \<Rightarrow> outcome" where
  "benchmark_of p = (case p of Single \<Rightarrow> benchmark_avx512_sp | Double \<Rightarrow> benchmark_avx512_dp)"

definition run_kernel :: "machine \<Rightarrow> call \<Rightarrow> precision \<Rightarrow> size_t \<Rightarrow> fault + outcome" where
  "run_kernel m c p iterations =
     (if avx512f m then Inr (benchmark_of p iterations (elapsed_of m c))
      else Inl Illegal_instruction)"

text \<open>
  Standard output, item by item. The labels of the source are Chinese text and are kept
  as constructors; a result line carries the characters of its number, as
  \<open>std::fixed << std::setprecision(2)\<close> prints it, between the label of the precision and
  the unit \<open>GFLOPS\<close>.
\<close>

datatype item =
    Banner
  | Parameters size_t size_t
  | Single_header
  | Result_line precision string
  | Hardware_threads int
  | Round_header int
  | Footer

definition digit_char :: "nat \<Rightarrow> char" where
  "digit_char d = ''0123456789'' ! (d mod 10)"

function decimal :: "nat \<Rightarrow> string" where
  "decimal n = (if n < 10 then [digit_char n] else decimal (n div 10) @ [digit_char n])"
  by pat_completeness auto
termination
  by (relation "measure id") auto

declare decimal.simps [simp del]

text \<open>
  Fixed notation with two decimals: the value is rounded to the nearest hundredth (ties
  to even, on the exact binary value) and printed with its sign. The sign of a NaN is
  not modelled.
\<close>

definition fixed2 :: "fp \<Rightarrow> string" where
  "fixed2 x =
     (case x of
        Fin r \<Rightarrow>
          (let n = nat (round_half_even (\<bar>r\<bar> * 100))
           in (if r < 0 then ''-'' else []) @ decimal (n div 100) @ ''.''
              @ [digit_char (n div 10), digit_char n])
      | PInf \<Rightarrow> ''inf''
      | NInf \<Rightarrow> ''-inf''
      | NaN \<Rightarrow> ''nan'')"

definition gflops :: "fp \<Rightarrow> string" where
  "gflops x = fixed2 (fdiv binary64 x (double_lit 1000000000))"

text \<open>
  A session is what the program has done so far, in the order in which it did it, and
  whether it still runs. An action is the insertion of an item into \<open>std::cout\<close> or the
  entry into a kernel call with its iteration count; for a worker of a round it stands
  for the creation of the thread that makes the call, so the workers of a phase appear
  in the order of their ids. A step of a session that no longer runs does nothing.
\<close>

datatype action = Output item | Kernel call size_t

record session =
  history :: "action list"
  status :: status

text \<open>What has been printed, and which kernels have been called, both in order.\<close>

fun outputs :: "action list \<Rightarrow> item list" where
  "outputs [] = []"
| "outputs (Output x # acts) = x # outputs acts"
| "outputs (Kernel c n # acts) = outputs acts"

fun kernels :: "action list \<Rightarrow> (call \<times> size_t) list" where
  "kernels [] = []"
| "kernels (Output x # acts) = kernels acts"
| "kernels (Kernel c n # acts) = (c, n) # kernels acts"

definition printed :: "session \<Rightarrow> item list" where
  "printed s = outputs (history s)"

definition calls :: "session \<Rightarrow> (call \<times> size_t) list" where
  "calls s = kernels (history s)"

definition start :: session where
  "start = \<lparr>history = [], status = Running\<rparr>"

definition print :: "item \<Rightarrow> session \<Rightarrow> session" where
  "print x s = (if status s = Running then s\<lparr>history := history s @ [Output x]\<rparr> else s)"

definition exit_with :: "int \<Rightarrow> session \<Rightarrow> session" where
  "exit_with code s = (if status s = Running then s\<lparr>status := Exited code\<rparr> else s)"

text \<open>
  Every item of the source ends in \<open>"\n"\<close>, none in \<open>std::endl\<close> or \<open>std::flush\<close>: the
  program never flushes its output itself. When an inserted item reaches the device is
  decided by the buffering of standard output, which the environment chooses: at once
  when the stream is unbuffered, at the end of every line on a terminal, and otherwise
  only when the buffer is full or the program exits. The whole output of the program is
  about 700 bytes, 270 of them before the first kernel call, and a buffer holds 4096
  bytes or more: a fully buffered stream hands nothing to the device before the exit.
  Returning from \<open>main\<close> flushes the stream; a process that is killed loses what is
  still buffered.
\<close>

datatype buffering = Unbuffered | Line_buffered | Fully_buffered

record stream =
  device :: "item list"
  buffer :: "item list"

definition insert_item :: "buffering \<Rightarrow> stream \<Rightarrow> item \<Rightarrow> stream" where
  "insert_item b st x =
     (case b of
        Unbuffered \<Rightarrow> \<lparr>device = device st @ buffer st @ [x], buffer = []\<rparr>
      | Line_buffered \<Rightarrow> \<lparr>device = device st @ buffer st @ [x], buffer = []\<rparr>
      | Fully_buffered \<Rightarrow> st\<lparr>buffer := buffer st @ [x]\<rparr>)"

definition standard_output :: "buffering \<Rightarrow> session \<Rightarrow> item list" where
  "standard_output b s =
     (let st = foldl (insert_item b) \<lparr>device = [], buffer = []\<rparr> (printed s)
      in case status s of
           Exited code \<Rightarrow> device st @ buffer st
         | Running \<Rightarrow> device st
         | Killed f \<Rightarrow> device st)"

text \<open>
  One kernel call of the session: the entry is logged, and the call either returns or
  kills the process.
\<close>

definition call_kernel ::
    "machine \<Rightarrow> call \<Rightarrow> precision \<Rightarrow> size_t \<Rightarrow> session \<Rightarrow> session \<times> fp option" where
  "call_kernel m c p iterations s =
     (if status s \<noteq> Running then (s, None)
      else case run_kernel m c p iterations of
             Inl f \<Rightarrow> (s\<lparr>history := history s @ [Kernel c iterations], status := Killed f\<rparr>, None)
           | Inr r \<Rightarrow> (s\<lparr>history := history s @ [Kernel c iterations]\<rparr>, Some (returned r)))"

text \<open>
  \<open>double sp_flops = benchmark_avx512_sp(ITERATIONS); std::cout << ... << sp_flops / 1e9 << ...\<close>
\<close>

definition single_thread :: "machine \<Rightarrow> precision \<Rightarrow> session \<Rightarrow> session" where
  "single_thread m p s =
     (case call_kernel m (Single_thread p) p ITERATIONS s of
        (s', Some flops) \<Rightarrow> print (Result_line p (gflops flops)) s'
      | (s', None) \<Rightarrow> s')"

section \<open>The thread orchestrator\<close>

text \<open>
  One phase of \<open>run_multithread_benchmark\<close>: the workers \<open>0, ..., num_threads - 1\<close> each
  store the value their benchmark returns in the slot of their id. Here the workers are
  taken in the order of their ids; the interleavings of the threads are the subject of
  the step relation further below.
\<close>

fun run_workers ::
    "machine \<Rightarrow> cint \<Rightarrow> precision \<Rightarrow> size_t \<Rightarrow> nat list \<Rightarrow> fp list \<Rightarrow> session
      \<Rightarrow> session \<times> fp list" where
  "run_workers m num_threads p share [] results s = (s, results)"
| "run_workers m num_threads p share (i # ids) results s =
     (case call_kernel m (Worker num_threads p i) p share s of
        (s', Some r) \<Rightarrow> run_workers m num_threads p share ids (results[i := r]) s'
      | (s', None) \<Rightarrow> (s', results))"

text \<open>\<open>double total = 0; for (double r : results) total += r;\<close>\<close>

definition total_of :: "fp list \<Rightarrow> fp" where
  "total_of results = foldl (fadd binary64) (Fin 0) results"

definition run_multithread_benchmark :: "machine \<Rightarrow> cint \<Rightarrow> session \<Rightarrow> session" where
  "run_multithread_benchmark m num_threads s =
     (if status s \<noteq> Running then s
      else if sint num_threads < 0 then s\<lparr>status := Killed Bad_vector_size\<rparr>
      else case iterations_per_thread num_threads of
             None \<Rightarrow> s\<lparr>status := Killed Divide_error\<rparr>
           | Some share \<Rightarrow>
               (let results_sp = replicate (nat (sint num_threads)) (Fin 0);
                    results_dp = replicate (nat (sint num_threads)) (Fin 0);
                    (s1, results_sp) =
                       run_workers m num_threads Single share (worker_ids num_threads) results_sp s;
                    total_sp = total_of results_sp;
                    (s2, results_dp) =
                       run_workers m num_threads Double share (worker_ids num_threads) results_dp s1;
                    total_dp = total_of results_dp
                in print (Result_line Double (gflops total_dp))
                     (print (Result_line Single (gflops total_sp))
                       (print (Round_header (sint num_threads)) s2))))"

text \<open>
  For the statements below: the values the workers of a phase return, by worker id; the
  kernel calls of a phase; the three lines a round prints; and the actions of a whole
  round, with the total written out as the additions it consists of.
\<close>

definition worker_results :: "machine \<Rightarrow> cint \<Rightarrow> precision \<Rightarrow> size_t \<Rightarrow> fp list" where
  "worker_results m num_threads p share =
     map (\<lambda>i. returned (benchmark_of p share (elapsed_of m (Worker num_threads p i))))
       (worker_ids num_threads)"

definition worker_calls :: "cint \<Rightarrow> precision \<Rightarrow> size_t \<Rightarrow> (call \<times> size_t) list" where
  "worker_calls num_threads p share = map (\<lambda>i. (Worker num_threads p i, share)) (worker_ids num_threads)"

definition round_lines :: "machine \<Rightarrow> cint \<Rightarrow> size_t \<Rightarrow> item list" where
  "round_lines m num_threads share =
     [Round_header (sint num_threads),
      Result_line Single (gflops (total_of (worker_results m num_threads Single share))),
      Result_line Double (gflops (total_of (worker_results m num_threads Double share)))]"

definition round_log :: "machine \<Rightarrow> cint \<Rightarrow> size_t \<Rightarrow> action list" where
  "round_log m num_threads share =
     map (\<lambda>i. Kernel (Worker num_threads Single i) share) [0 ..< nat (sint num_threads)]
     @ map (\<lambda>i. Kernel (Worker num_threads Double i) share) [0 ..< nat (sint num_threads)]
     @ [Output (Round_header (sint num_threads)),
        Output (Result_line Single
          (fixed2 (fdiv binary64
            (foldl (fadd binary64) (Fin 0)
              (map (\<lambda>i. returned (benchmark_avx512_sp share
                                     (elapsed_of m (Worker num_threads Single i))))
                 [0 ..< nat (sint num_threads)]))
            (Fin 1000000000)))),
        Output (Result_line Double
          (fixed2 (fdiv binary64
            (foldl (fadd binary64) (Fin 0)
              (map (\<lambda>i. returned (benchmark_avx512_dp share
                                     (elapsed_of m (Worker num_threads Double i))))
                 [0 ..< nat (sint num_threads)]))
            (Fin 1000000000))))]"

text \<open>The program: its statements in order, applied to the empty session.\<close>

definition main_steps :: "machine \<Rightarrow> (session \<Rightarrow> session) list" where
  "main_steps m =
     [print Banner,
      print (Parameters ITERATIONS UNROLL),
      print Single_header,
      single_thread m Single,
      single_thread m Double,
      print (Hardware_threads (sint (hardware_concurrency m))),
      run_multithread_benchmark m 4,
      run_multithread_benchmark m 8,
      run_multithread_benchmark m 16,
      print Footer,
      exit_with 0]"

definition main :: "machine \<Rightarrow> session" where
  "main m = fold (\<lambda>step s. step s) (main_steps m) start"

text \<open>
  An environment for the examples: a processor with the instructions and 8 hardware
  threads, on which every kernel call takes half a second.
\<close>

definition quiet_machine :: machine where
  "quiet_machine = \<lparr>avx512f = True, hardware_concurrency = 8, elapsed_of = (\<lambda>c. 1 / 2)\<rparr>"

text \<open>The same processor with a clock that does not advance.\<close>

definition frozen_clock :: machine where
  "frozen_clock = \<lparr>avx512f = True, hardware_concurrency = 8, elapsed_of = (\<lambda>c. 0)\<rparr>"

text \<open>
  Two environments that differ only in which two of the four workers of a round are the
  slow ones.
\<close>

definition slow_first :: machine where
  "slow_first =
     \<lparr>avx512f = True, hardware_concurrency = 8,
      elapsed_of = (\<lambda>c. case c of Worker n p i \<Rightarrow> (if i < 2 then 15 / 8 else 1 / 8)
                            | Single_thread p \<Rightarrow> 1 / 2)\<rparr>"

definition slow_last :: machine where
  "slow_last =
     \<lparr>avx512f = True, hardware_concurrency = 8,
      elapsed_of = (\<lambda>c. case c of Worker n p i \<Rightarrow> (if i < 2 then 1 / 8 else 15 / 8)
                            | Single_thread p \<Rightarrow> 1 / 2)\<rparr>"

text \<open>A processor without the instructions.\<close>

definition no_avx512 :: machine where
  "no_avx512 = \<lparr>avx512f = False, hardware_concurrency = 8, elapsed_of = (\<lambda>c. 1 / 2)\<rparr>"

section \<open>The interleavings of a round\<close>

text \<open>
  \<open>run_multithread_benchmark\<close> thread by thread. The main thread spawns the workers of
  a phase in the order of their ids (\<open>threads.emplace_back\<close>), joins them in that order
  (\<open>t.join()\<close> returns only when the worker has finished), sums the result vector of the
  phase, clears \<open>threads\<close> and goes on to the next phase; a worker that has been spawned
  runs its benchmark and then stores the returned value in \<open>results[i]\<close>, \<open>i\<close> being the
  id it captured by value. Any worker that is running may take its step at any time: an
  execution of the round is a list of events, each enabled in the state the events before
  it lead to.
\<close>

datatype wstate = Idle | Running_worker | Done | Joined

datatype pc = Spawning precision nat | Joining precision nat | Summing precision | Finished

datatype event =
    Spawn precision nat size_t
  | Write precision nat nat fp
  | Join precision nat
  | Sum precision fp

record round_state =
  pc :: pc
  workers :: "precision \<times> nat \<Rightarrow> wstate"
  result_slots :: "precision \<Rightarrow> fp list"
  totals :: "precision \<Rightarrow> fp option"
  thread_share :: size_t

definition init_round :: "cint \<Rightarrow> size_t \<Rightarrow> round_state" where
  "init_round n sh =
     \<lparr>pc = Spawning Single 0, workers = (\<lambda>w. Idle),
      result_slots = (\<lambda>p. replicate (nat (sint n)) (Fin 0)),
      totals = (\<lambda>p. None), thread_share = sh\<rparr>"

fun apply_event :: "machine \<Rightarrow> cint \<Rightarrow> round_state \<Rightarrow> event \<Rightarrow> round_state option" where
  "apply_event m n s (Spawn p i sh) =
     (if pc s = Spawning p i \<and> i < nat (sint n) \<and> sh = thread_share s
      then Some (s\<lparr>pc := (if Suc i = nat (sint n) then Joining p 0 else Spawning p (Suc i)),
                   workers := (workers s)((p, i) := Running_worker)\<rparr>)
      else None)"
| "apply_event m n s (Write p i k v) =
     (if workers s (p, i) = Running_worker \<and> k = i
         \<and> v = returned (benchmark_of p (thread_share s) (elapsed_of m (Worker n p i)))
      then Some (s\<lparr>result_slots := (result_slots s)(p := (result_slots s p)[k := v]),
                   workers := (workers s)((p, i) := Done)\<rparr>)
      else None)"
| "apply_event m n s (Join p j) =
     (if pc s = Joining p j \<and> workers s (p, j) = Done
      then Some (s\<lparr>pc := (if Suc j = nat (sint n) then Summing p else Joining p (Suc j)),
                   workers := (workers s)((p, j) := Joined)\<rparr>)
      else None)"
| "apply_event m n s (Sum p t) =
     (if pc s = Summing p \<and> t = total_of (result_slots s p)
      then Some (s\<lparr>totals := (totals s)(p := Some t),
                   pc := (case p of Single \<Rightarrow> Spawning Double 0 | Double \<Rightarrow> Finished)\<rparr>)
      else None)"

fun exec :: "machine \<Rightarrow> cint \<Rightarrow> round_state \<Rightarrow> event list \<Rightarrow> round_state option" where
  "exec m n s [] = Some s"
| "exec m n s (ev # evs) =
     (case apply_event m n s ev of None \<Rightarrow> None | Some s' \<Rightarrow> exec m n s' evs)"

definition round_run :: "machine \<Rightarrow> cint \<Rightarrow> event list \<Rightarrow> round_state \<Rightarrow> bool" where
  "round_run m n evs s =
     (case iterations_per_thread n of
        None \<Rightarrow> False
      | Some sh \<Rightarrow> 0 \<le> sint n \<and> exec m n (init_round n sh) evs = Some s)"

fun written :: "event list \<Rightarrow> (precision \<times> nat) list" where
  "written [] = []"
| "written (Write p i k v # evs) = (p, k) # written evs"
| "written (ev # evs) = written evs"

text \<open>
  What holds of every state an execution reaches, together with the events that led to
  it; \<open>worker_value\<close> is the value worker \<open>i\<close> of a phase returns.
\<close>

definition phase_of :: "pc \<Rightarrow> precision option" where
  "phase_of c = (case c of Spawning q i \<Rightarrow> Some q | Joining q j \<Rightarrow> Some q
                 | Summing q \<Rightarrow> Some q | Finished \<Rightarrow> None)"

definition worker_value :: "machine \<Rightarrow> cint \<Rightarrow> size_t \<Rightarrow> precision \<Rightarrow> nat \<Rightarrow> fp" where
  "worker_value m n sh p i = returned (benchmark_of p sh (elapsed_of m (Worker n p i)))"

definition finished_worker :: "round_state \<Rightarrow> precision \<Rightarrow> nat \<Rightarrow> bool" where
  "finished_worker s p i = (workers s (p, i) = Done \<or> workers s (p, i) = Joined)"

definition round_inv :: "machine \<Rightarrow> cint \<Rightarrow> size_t \<Rightarrow> event list \<Rightarrow> round_state \<Rightarrow> bool" where
  "round_inv m n sh evs s =
     (thread_share s = sh
      \<and> (\<forall>p. length (result_slots s p) = nat (sint n))
      \<and> (\<forall>p i. workers s (p, i) \<noteq> Idle \<longrightarrow> i < nat (sint n) \<and> Spawn p i sh \<in> set evs)
      \<and> (\<forall>p i. (p, i) \<in> set (written evs) \<longrightarrow> finished_worker s p i)
      \<and> (\<forall>p i. finished_worker s p i \<longrightarrow>
             Write p i i (worker_value m n sh p i) \<in> set evs
             \<and> result_slots s p ! i = worker_value m n sh p i)
      \<and> (\<forall>p i. workers s (p, i) = Joined \<longrightarrow> Join p i \<in> set evs)
      \<and> (\<forall>p i k v. Write p i k v \<in> set evs \<longrightarrow> k = i \<and> i < nat (sint n))
      \<and> (\<forall>p i sh'. Spawn p i sh' \<in> set evs \<longrightarrow> sh' = sh)
      \<and> distinct (written evs)
      \<and> (phase_of (pc s) \<noteq> Some Single \<longrightarrow>
            (\<exists>t. Sum Single t \<in> set evs) \<and> totals s Single \<noteq> None
            \<and> (\<forall>i < nat (sint n). workers s (Single, i) = Joined))
      \<and> (phase_of (pc s) = Some Single \<longrightarrow> (\<forall>i. workers s (Double, i) = Idle))
      \<and> (\<forall>p i. pc s = Spawning p i \<longrightarrow> (\<forall>j \<ge> i. workers s (p, j) = Idle))
      \<and> (\<forall>p j. pc s = Joining p j \<longrightarrow>
            j < nat (sint n) \<and> (\<forall>i < j. workers s (p, i) = Joined))
      \<and> (\<forall>p. pc s = Summing p \<longrightarrow> (\<forall>i < nat (sint n). workers s (p, i) = Joined)))"

text \<open>
  A complete round with four workers on the example environment, the workers finishing
  out of order.
\<close>

definition example_round :: "event list" where
  "example_round =
     [Spawn Single 0 25000000, Spawn Single 1 25000000,
      Write Single 1 1 (Fin 16000000000),
      Spawn Single 2 25000000,
      Write Single 0 0 (Fin 16000000000),
      Spawn Single 3 25000000,
      Write Single 3 3 (Fin 16000000000), Write Single 2 2 (Fin 16000000000),
      Join Single 0, Join Single 1, Join Single 2, Join Single 3,
      Sum Single (Fin 64000000000),
      Spawn Double 0 25000000, Spawn Double 1 25000000, Spawn Double 2 25000000,
      Spawn Double 3 25000000,
      Write Double 3 3 (Fin 8000000000), Write Double 2 2 (Fin 8000000000),
      Write Double 1 1 (Fin 8000000000), Write Double 0 0 (Fin 8000000000),
      Join Double 0, Join Double 1, Join Double 2, Join Double 3,
      Sum Double (Fin 32000000000)]"

section \<open>The formula of the specification\<close>

text \<open>
  The specification gives the lanes of a precision as the width of the vector register
  divided by the width of an element, and the throughput as
  \<open>(iteration_count * 10 * lanes(precision) * 2) / elapsed_seconds\<close>. These two
  definitions follow its words, the arithmetic done in \<open>double\<close> from left to right; the
  source writes the lanes as the literals 16 and 8.
\<close>

definition element_bits :: "precision \<Rightarrow> nat" where
  "element_bits p = (case p of Single \<Rightarrow> 32 | Double \<Rightarrow> 64)"

definition lanes :: "precision \<Rightarrow> nat" where
  "lanes p = 512 div element_bits p"

definition throughput_formula :: "precision \<Rightarrow> size_t \<Rightarrow> rat \<Rightarrow> fp" where
  "throughput_formula p iteration_count elapsed_seconds =
     fdiv binary64
       (fmul binary64 (fmul binary64 (fmul binary64 (double_of_size iteration_count)
          (double_of_int 10)) (double_of_int (int (lanes p)))) (double_of_int 2))
       (Fin elapsed_seconds)"

section \<open>Rounding: exponent, error and exactness\<close>

lemma pow2_powi: "pow2 k = 2 powi k"
  by (simp add: pow2_def power_int_def field_simps)

lemma pow2_pos [simp]: "0 < pow2 k"
  by (simp add: pow2_powi)

lemma pow2_nonneg [simp]: "0 \<le> pow2 k"
  using pow2_pos [of k] by (rule order_less_imp_le)

lemma pow2_add: "pow2 (a + b) = pow2 a * pow2 b"
  by (simp add: pow2_powi power_int_add)

lemma pow2_diff: "pow2 (a - b) = pow2 a / pow2 b"
  by (simp add: pow2_powi power_int_diff)

lemma pow2_0 [simp]: "pow2 0 = 1"
  by (simp add: pow2_def)

lemma pow2_nat: "pow2 (int n) = 2 ^ n"
  by (simp add: pow2_def)

lemma pow2_less_iff [simp]: "pow2 a < pow2 b \<longleftrightarrow> a < b"
proof
  assume "a < b"
  then show "pow2 a < pow2 b"
    by (simp add: pow2_powi power_int_strict_increasing)
next
  assume lt: "pow2 a < pow2 b"
  show "a < b"
  proof (rule ccontr)
    assume "\<not> a < b"
    then have "b \<le> a" by simp
    then have "pow2 b \<le> pow2 a"
      by (simp add: pow2_powi power_int_increasing)
    with lt show False by simp
  qed
qed

lemma pow2_le_iff [simp]: "pow2 a \<le> pow2 b \<longleftrightarrow> a \<le> b"
  using pow2_less_iff [of b a] by (simp only: linorder_not_less [symmetric])

lemma pow2_1 [simp]: "pow2 1 = 2"
  by (simp add: pow2_def)

lemma ilog2_bounds:
  assumes "0 < y"
  shows "pow2 (ilog2 y) \<le> y" and "y < pow2 (ilog2 y + 1)"
proof -
  obtain a b where q: "quotient_of y = (a, b)"
    by (cases "quotient_of y")
  then have b: "0 < b" and y: "y = of_int a / of_int b"
    using quotient_of_denom_pos quotient_of_div by blast+
  with assms have a: "0 < a"
    by (simp add: zero_less_divide_iff)
  let ?la = "bitlen a" and ?lb = "bitlen b"
  let ?k = "?la - ?lb"
  have "?la \<noteq> 0" "?lb \<noteq> 0"
    using a b by (simp_all add: bitlen_eq_zero_iff)
  then have la: "1 \<le> ?la" and lb: "1 \<le> ?lb"
    using bitlen_nonneg [of a] bitlen_nonneg [of b] by linarith+
  have ab: "(2::int) ^ nat (?la - 1) \<le> a" "a < 2 ^ nat ?la"
    "(2::int) ^ nat (?lb - 1) \<le> b" "b < 2 ^ nat ?lb"
    using bitlen_bounds [OF a] bitlen_bounds [OF b] by simp_all
  have "(of_int (2 ^ nat (?la - 1)) :: rat) \<le> of_int a"
    "(of_int a :: rat) < of_int (2 ^ nat ?la)"
    "(of_int (2 ^ nat (?lb - 1)) :: rat) \<le> of_int b"
    "(of_int b :: rat) < of_int (2 ^ nat ?lb)"
    using ab by (simp_all only: of_int_le_iff of_int_less_iff)
  then have ra: "pow2 (?la - 1) \<le> of_int a" "of_int a < pow2 ?la"
    and rb: "pow2 (?lb - 1) \<le> of_int b" "of_int b < pow2 ?lb"
    using la lb by (simp_all add: pow2_def)
  have bpos: "(0::rat) < of_int b" using b by simp
  have apos: "(0::rat) \<le> of_int a" using a by simp
  have "y < pow2 ?la / pow2 (?lb - 1)"
    unfolding y using ra rb apos by (intro frac_less) simp_all
  then have up: "y < pow2 (?k + 1)"
    by (simp add: pow2_diff [symmetric] algebra_simps)
  have "pow2 (?la - 1) / pow2 ?lb < y"
    unfolding y using ra rb bpos by (intro frac_less2) simp_all
  then have lo: "pow2 (?k - 1) < y"
    by (simp add: pow2_diff [symmetric] algebra_simps)
  have il: "ilog2 y = (if pow2 ?k \<le> y then ?k else ?k - 1)"
    by (simp add: ilog2_def q Let_def)
  show "pow2 (ilog2 y) \<le> y"
    using lo by (simp add: il)
  show "y < pow2 (ilog2 y + 1)"
    using up by (auto simp add: il)
qed

lemma ilog2_unique:
  assumes "pow2 k \<le> y" and "y < pow2 (k + 1)"
  shows "ilog2 y = k"
proof -
  have y: "0 < y"
    using assms(1) pow2_pos [of k] by linarith
  have "pow2 (ilog2 y) < pow2 (k + 1)"
    using ilog2_bounds(1) [OF y] assms(2) by linarith
  moreover have "pow2 k < pow2 (ilog2 y + 1)"
    using ilog2_bounds(2) [OF y] assms(1) by linarith
  ultimately show ?thesis
    by simp
qed


lemma rhe_cases:
  "round_half_even q = \<lfloor>q\<rfloor> \<or> round_half_even q = \<lfloor>q\<rfloor> + 1"
  by (simp add: round_half_even_def Let_def)

lemma rhe_error: "\<bar>of_int (round_half_even q) - q\<bar> \<le> 1 / 2"
proof -
  have "of_int \<lfloor>q\<rfloor> \<le> q" "q < of_int \<lfloor>q\<rfloor> + 1"
    by linarith+
  then show ?thesis
    by (auto simp add: round_half_even_def Let_def abs_le_iff)
qed

lemma rhe_unique:
  assumes "\<bar>of_int m - q\<bar> < 1 / 2"
  shows "round_half_even q = m"
proof -
  have "\<bar>(of_int (round_half_even q) :: rat) - of_int m\<bar> < 1"
    using rhe_error [of q] assms by linarith
  then have "\<bar>(of_int (round_half_even q - m) :: rat)\<bar> < of_int 1"
    by simp
  then have "\<bar>round_half_even q - m\<bar> < 1"
    by (simp only: of_int_abs [symmetric] of_int_less_iff)
  then show ?thesis
    by linarith
qed

lemma rhe_of_int [simp]: "round_half_even (of_int m) = m"
  by (rule rhe_unique) simp

lemma rhe_tie:
  assumes "q = of_int m + 1 / 2"
  shows "round_half_even q = (if even m then m else m + 1)"
proof -
  have "\<lfloor>q\<rfloor> = m"
    unfolding assms by (rule floor_unique) simp_all
  then show ?thesis
    by (simp add: round_half_even_def Let_def assms)
qed

lemma rhe_nonneg: "0 \<le> q \<Longrightarrow> 0 \<le> round_half_even q"
  using rhe_cases [of q] by (auto simp: zero_le_floor)

lemma round_mag_spacing:
  "round_mag fmt y = of_int (round_half_even (y / pow2 (spacing fmt y))) * pow2 (spacing fmt y)"
  by (simp add: round_mag_def spacing_def Let_def)

lemma abs_scale:
  fixes u :: rat
  assumes "0 < u"
  shows "\<bar>a - y / u\<bar> * u = \<bar>a * u - y\<bar>"
proof -
  have "\<bar>a - y / u\<bar> * u = \<bar>(a - y / u) * u\<bar>"
    using assms by (simp add: abs_mult)
  also have "(a - y / u) * u = a * u - y"
    using assms by (simp add: field_simps)
  finally show ?thesis .
qed

lemma round_mag_error: "\<bar>round_mag fmt y - y\<bar> \<le> pow2 (spacing fmt y) / 2"
proof -
  let ?u = "pow2 (spacing fmt y)"
  have "\<bar>of_int (round_half_even (y / ?u)) - y / ?u\<bar> * ?u \<le> 1 / 2 * ?u"
    by (intro mult_right_mono rhe_error) simp
  moreover have "\<bar>of_int (round_half_even (y / ?u)) - y / ?u\<bar> * ?u
      = \<bar>of_int (round_half_even (y / ?u)) * ?u - y\<bar>"
    by (rule abs_scale) simp
  ultimately show ?thesis
    by (simp add: round_mag_spacing)
qed

lemma round_mag_nonneg: "0 \<le> y \<Longrightarrow> 0 \<le> round_mag fmt y"
  by (simp add: round_mag_spacing rhe_nonneg zero_le_mult_iff)

lemma round_mag_eqI:
  assumes "pow2 k \<le> y" and "y < pow2 (k + 1)"
    and "e = max k (emin fmt) - (int (prec fmt) - 1)"
    and "\<bar>of_int m - y / pow2 e\<bar> < 1 / 2"
  shows "round_mag fmt y = of_int m * pow2 e"
proof -
  have "ilog2 y = k"
    using assms(1,2) by (rule ilog2_unique)
  then have "spacing fmt y = e"
    by (simp add: spacing_def assms(3))
  then show ?thesis
    by (simp add: round_mag_spacing rhe_unique [OF assms(4)])
qed

text \<open>In the normal range the error of rounding is at most \<open>2 ^ - prec\<close>, relatively.\<close>

lemma round_mag_relative:
  assumes "pow2 (emin fmt) \<le> y"
  shows "\<bar>round_mag fmt y - y\<bar> \<le> y * pow2 (- int (prec fmt))"
proof -
  have y: "0 < y"
    using assms pow2_pos [of "emin fmt"] by linarith
  have "pow2 (emin fmt) < pow2 (ilog2 y + 1)"
    using ilog2_bounds(2) [OF y] assms by linarith
  then have "emin fmt \<le> ilog2 y"
    by simp
  then have sp: "spacing fmt y = (ilog2 y + (- int (prec fmt))) + 1"
    by (simp add: spacing_def max_def)
  have "pow2 (spacing fmt y) / 2 = pow2 (ilog2 y) * pow2 (- int (prec fmt))"
    unfolding sp pow2_add by simp
  also have "\<dots> \<le> y * pow2 (- int (prec fmt))"
    using ilog2_bounds(1) [OF y] by (intro mult_right_mono) simp_all
  finally show ?thesis
    using round_mag_error [of fmt y] by linarith
qed


lemma round_mag_exact:
  assumes "y / pow2 (spacing fmt y) = of_int m"
  shows "round_mag fmt y = y"
proof -
  have "round_mag fmt y = y / pow2 (spacing fmt y) * pow2 (spacing fmt y)"
    unfolding round_mag_spacing assms by simp
  then show ?thesis
    using pow2_pos [of "spacing fmt y"] by simp
qed

lemma rnd_pos:
  assumes "0 < y"
  shows "rnd fmt y = (if pow2 (emax fmt + 1) \<le> round_mag fmt y then PInf
                      else Fin (round_mag fmt y))"
  using assms by (simp add: rnd_def Let_def)

lemma rnd_neg:
  assumes "0 < y"
  shows "rnd fmt (- y) = (if pow2 (emax fmt + 1) \<le> round_mag fmt y then NInf
                          else Fin (- round_mag fmt y))"
  using assms by (simp add: rnd_def Let_def)

lemma rnd_nonpos:
  assumes "y \<le> 0"
  shows "rnd fmt y = NInf \<or> (\<exists>v. rnd fmt y = Fin v \<and> v \<le> 0)"
proof (cases "y = 0")
  case True
  then show ?thesis by (simp add: rnd_def)
next
  case False
  with assms have "0 < - y" by simp
  from rnd_neg [OF this, of fmt] round_mag_nonneg [of "- y" fmt] this
  show ?thesis by (auto split: if_splits)
qed

lemma rnd_pos_eqI:
  assumes "pow2 k \<le> y" and "y < pow2 (k + 1)"
    and "e = max k (emin fmt) - (int (prec fmt) - 1)"
    and "\<bar>of_int m - y / pow2 e\<bar> < 1 / 2"
    and "of_int m * pow2 e < pow2 (emax fmt + 1)"
  shows "rnd fmt y = Fin (of_int m * pow2 e)"
proof -
  have y: "0 < y"
    using assms(1) pow2_pos [of k] by linarith
  have "round_mag fmt y = of_int m * pow2 e"
    using assms(1-4) by (rule round_mag_eqI)
  then show ?thesis
    using assms(5) by (simp add: rnd_pos [OF y])
qed

text \<open>A rounding that stays finite, with the relative error bound of the normal range.\<close>

lemma rnd_normal_bound:
  assumes "pow2 (emin fmt) \<le> y"
    and "y * (1 + pow2 (- int (prec fmt))) < pow2 (emax fmt + 1)"
  shows "\<exists>v. rnd fmt y = Fin v \<and> 0 \<le> v \<and> v \<le> y * (1 + pow2 (- int (prec fmt)))"
proof -
  have y: "0 < y"
    using assms(1) pow2_pos [of "emin fmt"] by linarith
  have "round_mag fmt y \<le> y + y * pow2 (- int (prec fmt))"
    using round_mag_relative [OF assms(1)] by linarith
  then have le: "round_mag fmt y \<le> y * (1 + pow2 (- int (prec fmt)))"
    by (simp add: algebra_simps)
  with assms(2) have "\<not> pow2 (emax fmt + 1) \<le> round_mag fmt y"
    by linarith
  then have "rnd fmt y = Fin (round_mag fmt y)"
    by (simp add: rnd_pos [OF y])
  moreover have "0 \<le> round_mag fmt y"
    using y by (simp add: round_mag_nonneg)
  ultimately show ?thesis
    using le by blast
qed

text \<open>Natural numbers below \<open>2 ^ prec\<close> are values of the format.\<close>

lemma round_mag_exact_nat:
  assumes "0 < n" and "n < 2 ^ prec fmt" and "1 \<le> emax fmt"
  shows "round_mag fmt (of_nat n) = of_nat n"
proof -
  let ?y = "of_nat n :: rat"
  have y: "0 < ?y" using assms(1) by simp
  have "pow2 0 \<le> ?y"
    using assms(1) by (simp add: Suc_leI)
  then have "pow2 0 < pow2 (ilog2 ?y + 1)"
    using ilog2_bounds(2) [OF y] by linarith
  then have lo: "0 \<le> ilog2 ?y"
    using pow2_less_iff [of 0 "ilog2 ?y + 1"] by simp
  have "?y < of_nat (2 ^ prec fmt)"
    using assms(2) by (simp only: of_nat_less_iff)
  then have small: "?y < pow2 (int (prec fmt))"
    by (simp add: pow2_nat)
  then have "pow2 (ilog2 ?y) < pow2 (int (prec fmt))"
    using ilog2_bounds(1) [OF y] by linarith
  then have hi: "ilog2 ?y < int (prec fmt)" by simp
  have sp: "spacing fmt ?y = ilog2 ?y - (int (prec fmt) - 1)"
    using lo assms(3) by (simp add: spacing_def emin_def max_def)
  define d where "d = nat (int (prec fmt) - 1 - ilog2 ?y)"
  have "spacing fmt ?y = - int d"
    using hi by (simp add: sp d_def)
  then have "?y / pow2 (spacing fmt ?y) = of_int (int n * 2 ^ d)"
    by (simp add: pow2_def)
  then show ?thesis
    by (rule round_mag_exact)
qed

lemma rnd_exact_nat:
  assumes "n < 2 ^ prec fmt" and "int (prec fmt) \<le> emax fmt + 1" and "1 \<le> emax fmt"
  shows "rnd fmt (of_nat n) = Fin (of_nat n)"
proof (cases "n = 0")
  case True
  then show ?thesis by (simp add: rnd_def)
next
  case False
  let ?y = "of_nat n :: rat"
  have y: "0 < ?y" using False by simp
  have "?y < of_nat (2 ^ prec fmt)"
    using assms(1) by (simp only: of_nat_less_iff)
  then have "?y < pow2 (int (prec fmt))"
    by (simp add: pow2_nat)
  then have "?y < pow2 (emax fmt + 1)"
    using assms(2) pow2_le_iff [of "int (prec fmt)" "emax fmt + 1"] by linarith
  moreover have "round_mag fmt ?y = ?y"
    using False assms(1,3) by (intro round_mag_exact_nat) simp_all
  ultimately show ?thesis
    by (simp add: rnd_pos [OF y])
qed

lemma rnd_exact_neg_nat:
  assumes "n < 2 ^ prec fmt" and "int (prec fmt) \<le> emax fmt + 1" and "1 \<le> emax fmt"
  shows "rnd fmt (- of_nat n) = Fin (- of_nat n)"
proof (cases "n = 0")
  case True
  then show ?thesis by (simp add: rnd_def)
next
  case False
  let ?y = "of_nat n :: rat"
  have y: "0 < ?y" using False by simp
  have "?y < of_nat (2 ^ prec fmt)"
    using assms(1) by (simp only: of_nat_less_iff)
  then have "?y < pow2 (int (prec fmt))"
    by (simp add: pow2_nat)
  then have "?y < pow2 (emax fmt + 1)"
    using assms(2) pow2_le_iff [of "int (prec fmt)" "emax fmt + 1"] by linarith
  moreover have "round_mag fmt ?y = ?y"
    using False assms(1,3) by (intro round_mag_exact_nat) simp_all
  ultimately show ?thesis
    by (simp add: rnd_neg [OF y])
qed

lemma rnd_binary64_nat: "n < 2 ^ 53 \<Longrightarrow> rnd binary64 (of_nat n) = Fin (of_nat n)"
  by (rule rnd_exact_nat) (simp_all add: binary64_def)

lemma rnd_normal_bounds:
  assumes "pow2 (emin fmt) \<le> y"
    and "y * (1 + pow2 (- int (prec fmt))) < pow2 (emax fmt + 1)"
  shows "\<exists>v. rnd fmt y = Fin v \<and> y * (1 - pow2 (- int (prec fmt))) \<le> v
           \<and> v \<le> y * (1 + pow2 (- int (prec fmt)))"
proof -
  have y: "0 < y"
    using assms(1) pow2_pos [of "emin fmt"] by linarith
  have "round_mag fmt y \<le> y + y * pow2 (- int (prec fmt))"
    and "y - y * pow2 (- int (prec fmt)) \<le> round_mag fmt y"
    using round_mag_relative [OF assms(1)] by linarith+
  then have le: "round_mag fmt y \<le> y * (1 + pow2 (- int (prec fmt)))"
    and ge: "y * (1 - pow2 (- int (prec fmt))) \<le> round_mag fmt y"
    by (simp_all add: algebra_simps)
  with assms(2) have "\<not> pow2 (emax fmt + 1) \<le> round_mag fmt y"
    by linarith
  then have "rnd fmt y = Fin (round_mag fmt y)"
    by (simp add: rnd_pos [OF y])
  then show ?thesis
    using le ge by blast
qed

lemma rnd_binary64_coarse:
  assumes "1 / 2 \<le> y" and "y \<le> 2 ^ 100"
  shows "\<exists>v. rnd binary64 y = Fin v \<and> y / 2 \<le> v \<and> v \<le> 2 * y"
proof -
  have y: "0 < y" using assms(1) by linarith
  have e: "pow2 (emin binary64) \<le> y"
  proof -
    have "pow2 (emin binary64) \<le> pow2 (- 1)"
      unfolding pow2_le_iff by (simp add: emin_def binary64_def)
    also have "pow2 (- 1) = 1 / 2" by (simp add: pow2_def)
    finally show ?thesis using assms(1) by linarith
  qed
  have u: "pow2 (- int (prec binary64)) \<le> 1 / 2" "0 \<le> pow2 (- int (prec binary64))"
  proof -
    have "pow2 (- int (prec binary64)) \<le> pow2 (- 1)"
      unfolding pow2_le_iff by (simp add: binary64_def)
    also have "pow2 (- 1) = 1 / 2" by (simp add: pow2_def)
    finally show "pow2 (- int (prec binary64)) \<le> 1 / 2" .
  qed simp
  have "y * (1 + pow2 (- int (prec binary64))) \<le> y * 2"
    using u y by (intro mult_left_mono) simp_all
  also have "\<dots> \<le> 2 ^ 100 * 2" using assms(2) by simp
  also have "\<dots> = pow2 101" by (simp add: pow2_def)
  also have "\<dots> < pow2 (emax binary64 + 1)"
    unfolding pow2_less_iff by (simp add: binary64_def)
  finally have "y * (1 + pow2 (- int (prec binary64))) < pow2 (emax binary64 + 1)" .
  from rnd_normal_bounds [OF e this] obtain v where v: "rnd binary64 y = Fin v"
    "y * (1 - pow2 (- int (prec binary64))) \<le> v" "v \<le> y * (1 + pow2 (- int (prec binary64)))"
    by blast
  have "y * (1 / 2) \<le> y * (1 - pow2 (- int (prec binary64)))"
    using u y by (intro mult_left_mono) simp_all
  moreover have "y * (1 + pow2 (- int (prec binary64))) \<le> y * 2"
    using u y by (intro mult_left_mono) simp_all
  ultimately show ?thesis
    using v by (intro exI [of _ v]) simp
qed


section \<open>Properties of the kernels\<close>

lemma kernel_loop_funpow_from:
  "kernel_loop body i n s = (body ^^ (unat n - unat i)) s"
proof (induction body i n s rule: kernel_loop.induct)
  case (1 body i n s)
  show ?case
  proof (cases "i < n")
    case True
    then have lt: "unat i < unat n"
      by (simp add: word_less_nat_alt)
    have "kernel_loop body i n s = kernel_loop body (i + 1) n (body s)"
      using True by (subst kernel_loop.simps) simp
    also have "\<dots> = (body ^^ (unat n - unat (i + 1))) (body s)"
      using True by (rule "1.IH")
    also have "unat n - unat (i + 1) = unat n - Suc (unat i)"
      using True by (simp add: unat_succ_below)
    also have "(body ^^ (unat n - Suc (unat i))) (body s) = (body ^^ Suc (unat n - Suc (unat i))) s"
      by (simp add: funpow_swap1)
    also have "Suc (unat n - Suc (unat i)) = unat n - unat i"
      using lt by simp
    finally show ?thesis .
  next
    case False
    then have "unat n - unat i = 0"
      by (simp add: word_less_nat_alt)
    then show ?thesis
      using False by (subst kernel_loop.simps) simp
  qed
qed

lemma kernel_loop_funpow: "kernel_loop body 0 n s = (body ^^ unat n) s"
  by (simp add: kernel_loop_funpow_from)

lemma fmadd_lanes_replicate:
  "fmadd_lanes fmt (replicate k x) (replicate k y) (replicate k z) = replicate k (ffma fmt x y z)"
  by (simp add: fmadd_lanes_def zip_replicate)

lemma sp_fmadd_splat:
  "mm512_fmadd_ps (replicate 16 x) sp_mul sp_add = replicate 16 (sp_update x)"
  by (simp add: mm512_fmadd_ps_def sp_mul_def sp_add_def mm512_set1_ps_def
      fmadd_lanes_replicate sp_update_def)

lemma dp_fmadd_splat:
  "mm512_fmadd_pd (replicate 8 x) dp_mul dp_add = replicate 8 (dp_update x)"
  by (simp add: mm512_fmadd_pd_def dp_mul_def dp_add_def mm512_set1_pd_def
      fmadd_lanes_replicate dp_update_def)

lemma sp_init_splat: "sp_init = splat_bank 16 float_lit"
  by (simp add: sp_init_def splat_bank_def mm512_set1_ps_def)

lemma dp_init_splat: "dp_init = splat_bank 8 double_lit"
  by (simp add: dp_init_def splat_bank_def mm512_set1_pd_def)

lemma sp_step_splat: "sp_step (splat_bank 16 f) = splat_bank 16 (\<lambda>r. sp_update (f r))"
  by (simp add: sp_step_def splat_bank_def sp_fmadd_splat)

lemma dp_step_splat: "dp_step (splat_bank 8 f) = splat_bank 8 (\<lambda>r. dp_update (f r))"
  by (simp add: dp_step_def splat_bank_def dp_fmadd_splat)

lemma sp_steps_splat:
  "(sp_step ^^ k) (splat_bank 16 f) = splat_bank 16 (\<lambda>r. (sp_update ^^ k) (f r))"
  by (induction k) (simp_all add: sp_step_splat)

lemma dp_steps_splat:
  "(dp_step ^^ k) (splat_bank 8 f) = splat_bank 8 (\<lambda>r. (dp_update ^^ k) (f r))"
  by (induction k) (simp_all add: dp_step_splat)

lemma accumulators_splat: "accumulators (splat_bank k f) = map (\<lambda>r. replicate k (f r)) seeds"
  by (simp add: accumulators_def splat_bank_def seeds_def)

lemma add_halves_replicate:
  "add_halves fmt (replicate (2 * k) x) = replicate k (fadd fmt x x)"
proof -
  have "take k (replicate (2 * k) x) = replicate k x" "drop k (replicate (2 * k) x) = replicate k x"
    by (simp_all add: min_def)
  then show ?thesis
    by (simp add: add_halves_def zip_replicate)
qed

lemma reduce_ps_splat:
  "mm512_reduce_add_ps (replicate 16 x) = ((\<lambda>t. fadd binary32 t t) ^^ 4) x"
proof -
  have "(add_halves binary32 ^^ 4) (replicate 16 x)
      = replicate 1 (((\<lambda>t. fadd binary32 t t) ^^ 4) x)"
    using add_halves_replicate [of binary32 8] add_halves_replicate [of binary32 4]
      add_halves_replicate [of binary32 2] add_halves_replicate [of binary32 1]
    by (simp add: numeral_eq_Suc funpow_swap1)
  then show ?thesis
    by (simp add: mm512_reduce_add_ps_def)
qed

lemma reduce_pd_splat:
  "mm512_reduce_add_pd (replicate 8 x) = ((\<lambda>t. fadd binary64 t t) ^^ 3) x"
proof -
  have "(add_halves binary64 ^^ 3) (replicate 8 x)
      = replicate 1 (((\<lambda>t. fadd binary64 t t) ^^ 3) x)"
    using add_halves_replicate [of binary64 4]
      add_halves_replicate [of binary64 2] add_halves_replicate [of binary64 1]
    by (simp add: numeral_eq_Suc funpow_swap1)
  then show ?thesis
    by (simp add: mm512_reduce_add_pd_def)
qed

lemma sp_sink_sum:
  "sp_sink s = sum_from_left binary32 (map mm512_reduce_add_ps (accumulators s))"
  by (simp add: sp_sink_def sum_from_left_def accumulators_def)

lemma dp_sink_sum:
  "dp_sink s = sum_from_left binary64 (map mm512_reduce_add_pd (accumulators s))"
  by (simp add: dp_sink_def sum_from_left_def accumulators_def)

lemma sp_step_accumulators:
  "accumulators (sp_step s) = map (\<lambda>v. mm512_fmadd_ps v sp_mul sp_add) (accumulators s)"
  by (simp add: accumulators_def sp_step_def)

lemma dp_step_accumulators:
  "accumulators (dp_step s) = map (\<lambda>v. mm512_fmadd_pd v dp_mul dp_add) (accumulators s)"
  by (simp add: accumulators_def dp_step_def)


text \<open>
  Claim C5. For every iteration count the loop of a kernel runs its body exactly
  \<open>iterations\<close> times; one run of the body replaces each of the ten accumulators by
  \<open>accumulator * multiplier + addend\<close>, lane by lane and fused, with the multiplier
  \<open>1.0000001\<close> and the addend \<open>0.0000001\<close> as literals of the precision. After the
  loop every lane of accumulator \<open>k\<close> holds the \<open>iterations\<close>-fold update of seed \<open>k\<close>;
  each accumulator is reduced to the sum of its lanes and the ten sums, added from the
  left, are the one value stored to the sink.
\<close>

theorem kernel_runs_fused_updates:
  "kernel_loop body 0 n s = (body ^^ unat n) s
   \<and> accumulators (sp_step s) = map (\<lambda>v. mm512_fmadd_ps v sp_mul sp_add) (accumulators s)
   \<and> accumulators (dp_step s) = map (\<lambda>v. mm512_fmadd_pd v dp_mul dp_add) (accumulators s)
   \<and> mm512_fmadd_ps (replicate 16 x) sp_mul sp_add
       = replicate 16
           (ffma binary32 x (float_lit (10000001 / 10000000)) (float_lit (1 / 10000000)))
   \<and> mm512_fmadd_pd (replicate 8 x) dp_mul dp_add
       = replicate 8
           (ffma binary64 x (double_lit (10000001 / 10000000)) (double_lit (1 / 10000000)))
   \<and> accumulators (kernel_loop sp_step 0 n sp_init)
       = map (\<lambda>seed. replicate 16 ((sp_update ^^ unat n) (float_lit seed))) seeds
   \<and> accumulators (kernel_loop dp_step 0 n dp_init)
       = map (\<lambda>seed. replicate 8 ((dp_update ^^ unat n) (double_lit seed))) seeds
   \<and> sink (benchmark_avx512_sp n el)
       = sum_from_left binary32
           (map mm512_reduce_add_ps (accumulators (kernel_loop sp_step 0 n sp_init)))
   \<and> sink (benchmark_avx512_dp n el)
       = sum_from_left binary64
           (map mm512_reduce_add_pd (accumulators (kernel_loop dp_step 0 n dp_init)))
   \<and> mm512_reduce_add_ps (replicate 16 x) = ((\<lambda>t. fadd binary32 t t) ^^ 4) x
   \<and> mm512_reduce_add_pd (replicate 8 x) = ((\<lambda>t. fadd binary64 t t) ^^ 3) x
   \<and> length seeds = 10"
proof -
  have "accumulators (kernel_loop sp_step 0 n sp_init)
       = map (\<lambda>seed. replicate 16 ((sp_update ^^ unat n) (float_lit seed))) seeds"
    by (simp only: kernel_loop_funpow sp_init_splat sp_steps_splat accumulators_splat)
  moreover have "accumulators (kernel_loop dp_step 0 n dp_init)
       = map (\<lambda>seed. replicate 8 ((dp_update ^^ unat n) (double_lit seed))) seeds"
    by (simp only: kernel_loop_funpow dp_init_splat dp_steps_splat accumulators_splat)
  moreover have "sink (benchmark_avx512_sp n el)
       = sum_from_left binary32
           (map mm512_reduce_add_ps (accumulators (kernel_loop sp_step 0 n sp_init)))"
    by (simp add: benchmark_avx512_sp_def Let_def sp_sink_sum)
  moreover have "sink (benchmark_avx512_dp n el)
       = sum_from_left binary64
           (map mm512_reduce_add_pd (accumulators (kernel_loop dp_step 0 n dp_init)))"
    by (simp add: benchmark_avx512_dp_def Let_def dp_sink_sum)
  moreover have "length seeds = 10"
    by (simp add: seeds_def)
  moreover note kernel_loop_funpow [of body n s] sp_step_accumulators [of s]
    dp_step_accumulators [of s] sp_fmadd_splat [of x, unfolded sp_update_def]
    dp_fmadd_splat [of x, unfolded dp_update_def] reduce_ps_splat [of x] reduce_pd_splat [of x]
  ultimately show ?thesis
    by (intro conjI)
qed

section \<open>The accumulators stay in range\<close>

lemma growth_real: "(1 + 1 / 2 ^ 22 :: real) ^ 100000000 \<le> 2 ^ 39"
proof -
  let ?n = "100000000 :: nat"
  let ?x = "real ?n / 2 ^ 22"
  have "(1 + ?x / of_nat ?n) ^ ?n \<le> exp ?x"
    by (rule exp_ge_one_plus_x_over_n_power_n) simp_all
  moreover have "?x / of_nat ?n = 1 / 2 ^ 22"
    by simp
  ultimately have "(1 + 1 / 2 ^ 22 :: real) ^ ?n \<le> exp ?x"
    by (simp only:)
  also have "exp ?x \<le> exp (of_nat 24 * 1)"
    by (subst exp_le_cancel_iff) simp
  also have "\<dots> = exp 1 ^ 24"
    by (rule exp_of_nat_mult)
  also have "\<dots> \<le> 3 ^ 24"
    by (intro power_mono exp_le) simp
  also have "\<dots> \<le> (2 :: real) ^ 39"
    by simp
  finally show ?thesis .
qed

lemma growth_rat: "(1 + 1 / 2 ^ 22 :: rat) ^ 100000000 \<le> 2 ^ 39"
proof -
  have "(of_rat ((1 + 1 / 2 ^ 22) ^ 100000000) :: real) = (1 + 1 / 2 ^ 22) ^ 100000000"
    by (simp add: of_rat_power of_rat_add of_rat_divide)
  also have "\<dots> \<le> 2 ^ 39"
    by (rule growth_real)
  also have "(2 :: real) ^ 39 = of_rat (2 ^ 39)"
    by (simp add: of_rat_power)
  finally show ?thesis
    by (simp only: of_rat_less_eq)
qed

lemma growth_upto:
  assumes "k \<le> 100000000"
  shows "(1 + 1 / 2 ^ 22 :: rat) ^ k \<le> 2 ^ 39"
proof -
  have "(1 + 1 / 2 ^ 22 :: rat) ^ k \<le> (1 + 1 / 2 ^ 22) ^ 100000000"
    using assms by (intro power_increasing) simp_all
  then show ?thesis
    using growth_rat by linarith
qed

lemma sp_constants:
  "float_lit (10000001 / 10000000) = Fin (8388609 / 8388608)"
  "float_lit (1 / 10000000) = Fin (14073749 / 140737488355328)"
proof -
  have "rnd binary32 (10000001 / 10000000) = Fin (of_int 8388609 * pow2 (- 23))"
    by (rule rnd_pos_eqI [where k = 0]) (simp_all add: pow2_def binary32_def emin_def)
  then show "float_lit (10000001 / 10000000) = Fin (8388609 / 8388608)"
    by (simp add: float_lit_def pow2_def)
  have "rnd binary32 (1 / 10000000) = Fin (of_int 14073749 * pow2 (- 47))"
    by (rule rnd_pos_eqI [where k = "- 24"]) (simp_all add: pow2_def binary32_def emin_def)
  then show "float_lit (1 / 10000000) = Fin (14073749 / 140737488355328)"
    by (simp add: float_lit_def pow2_def)
qed

lemma dp_constants:
  "double_lit (10000001 / 10000000) = Fin (4503600077730459 / 4503599627370496)"
  "double_lit (1 / 10000000) = Fin (944473296573929 / 9444732965739290427392)"
proof -
  have "rnd binary64 (10000001 / 10000000) = Fin (of_int 4503600077730459 * pow2 (- 52))"
    by (rule rnd_pos_eqI [where k = 0]) (simp_all add: pow2_def binary64_def emin_def)
  then show "double_lit (10000001 / 10000000) = Fin (4503600077730459 / 4503599627370496)"
    by (simp add: double_lit_def pow2_def)
  have "rnd binary64 (1 / 10000000) = Fin (of_int 7555786372591432 * pow2 (- 76))"
    by (rule rnd_pos_eqI [where k = "- 24"]) (simp_all add: pow2_def binary64_def emin_def)
  then show "double_lit (1 / 10000000) = Fin (944473296573929 / 9444732965739290427392)"
    by (simp add: double_lit_def pow2_def)
qed

text \<open>
  One update of a lane in any format with at least 24 bits of precision and exponents
  up to 127 at least: the value stays finite and non-negative, and \<open>value + 2\<close> grows by
  a factor of at most \<open>1 + 2 ^ - 22\<close>.
\<close>

lemma update_step_bound:
  assumes fmt: "24 \<le> prec fmt" "127 \<le> emax fmt"
    and m: "0 < m" "m \<le> 1 + 1 / 2 ^ 23"
    and a: "pow2 (- 126) \<le> a" "a \<le> 2 * (m - 1)"
    and v: "0 \<le> v" "v + 2 \<le> 2 ^ 50"
  shows "\<exists>w. ffma fmt (Fin v) (Fin m) (Fin a) = Fin w \<and> 0 \<le> w
           \<and> w + 2 \<le> (v + 2) * (1 + 1 / 2 ^ 22)"
proof -
  let ?u = "pow2 (- int (prec fmt))"
  let ?y = "v * m + a"
  have u0: "0 < ?u" by simp
  have "?u \<le> pow2 (- 24)"
    unfolding pow2_le_iff using fmt(1) by simp
  then have u: "?u \<le> 1 / 2 ^ 24"
    by (simp add: pow2_def)
  have a0: "0 < a"
    using a(1) pow2_pos [of "- 126"] by linarith
  have vm: "0 \<le> v * m"
    using v(1) m(1) by simp
  have "pow2 (emin fmt) \<le> pow2 (- 126)"
    unfolding pow2_le_iff using fmt(2) by (simp add: emin_def)
  then have normal: "pow2 (emin fmt) \<le> ?y"
    using a(1) vm by linarith
  have y0: "0 < ?y"
    using a0 vm by linarith
  text \<open>The factor of one step.\<close>
  have c: "m * (1 + ?u) \<le> 1 + 1 / 2 ^ 22"
  proof -
    have "m * (1 + ?u) \<le> (1 + 1 / 2 ^ 23) * (1 + 1 / 2 ^ 24)"
      using m u u0 by (intro mult_mono) simp_all
    also have "\<dots> \<le> 1 + 1 / 2 ^ 22"
      by simp
    finally show ?thesis .
  qed
  have "?y \<le> v * m + 2 * (m - 1)"
    using a(2) by simp
  then have "?y * (1 + ?u) \<le> (v * m + 2 * (m - 1)) * (1 + ?u)"
    using u0 by (intro mult_right_mono) simp_all
  also have "\<dots> = (v + 2) * (m * (1 + ?u)) - 2 * (1 + ?u)"
    by (simp add: algebra_simps)
  also have "\<dots> \<le> (v + 2) * (m * (1 + ?u)) - 2"
    using u0 by simp
  also have "\<dots> \<le> (v + 2) * (1 + 1 / 2 ^ 22) - 2"
  proof -
    have "(v + 2) * (m * (1 + ?u)) \<le> (v + 2) * (1 + 1 / 2 ^ 22)"
      using c v(1) by (intro mult_left_mono) simp_all
    then show ?thesis by linarith
  qed
  finally have step: "?y * (1 + ?u) + 2 \<le> (v + 2) * (1 + 1 / 2 ^ 22)"
    by linarith
  have "(v + 2) * (1 + 1 / 2 ^ 22) \<le> 2 ^ 50 * (1 + 1 / 2 ^ 22)"
    using v(2) by (intro mult_right_mono) simp_all
  also have "\<dots> < pow2 128"
    by (simp add: pow2_def)
  also have "\<dots> \<le> pow2 (emax fmt + 1)"
    unfolding pow2_le_iff using fmt(2) by simp
  finally have "?y * (1 + ?u) < pow2 (emax fmt + 1)"
    using step by linarith
  from rnd_normal_bound [OF normal this] obtain w
    where w: "rnd fmt ?y = Fin w" "0 \<le> w" "w \<le> ?y * (1 + ?u)"
    by blast
  then have "ffma fmt (Fin v) (Fin m) (Fin a) = Fin w" "w + 2 \<le> (v + 2) * (1 + 1 / 2 ^ 22)"
    using step by (simp, linarith)
  with w(2) show ?thesis
    by blast
qed

lemma update_iterate_bound:
  assumes fmt: "24 \<le> prec fmt" "127 \<le> emax fmt"
    and m: "0 < m" "m \<le> 1 + 1 / 2 ^ 23"
    and a: "pow2 (- 126) \<le> a" "a \<le> 2 * (m - 1)"
    and v: "0 \<le> v" "v \<le> 2"
    and k: "k \<le> 100000000"
  shows "\<exists>w. ((\<lambda>x. ffma fmt x (Fin m) (Fin a)) ^^ k) (Fin v) = Fin w \<and> 0 \<le> w
           \<and> w + 2 \<le> (v + 2) * (1 + 1 / 2 ^ 22) ^ k"
  using k
proof (induction k)
  case 0
  then show ?case using v by simp
next
  case (Suc k)
  then obtain w where w: "((\<lambda>x. ffma fmt x (Fin m) (Fin a)) ^^ k) (Fin v) = Fin w"
    "0 \<le> w" "w + 2 \<le> (v + 2) * (1 + 1 / 2 ^ 22) ^ k"
    by auto
  have "(v + 2) * (1 + 1 / 2 ^ 22) ^ k \<le> 4 * 2 ^ 39"
    using growth_upto [of k] Suc.prems v
    by (intro mult_mono) simp_all
  then have "w + 2 \<le> 2 ^ 50"
    using w(3) by simp
  from update_step_bound [OF fmt m a w(2) this] obtain w'
    where w': "ffma fmt (Fin w) (Fin m) (Fin a) = Fin w'" "0 \<le> w'"
      "w' + 2 \<le> (w + 2) * (1 + 1 / 2 ^ 22)"
    by blast
  have "(w + 2) * (1 + 1 / 2 ^ 22) \<le> (v + 2) * (1 + 1 / 2 ^ 22) ^ k * (1 + 1 / 2 ^ 22)"
    using w(3) by (intro mult_right_mono) simp_all
  then have "w' + 2 \<le> (v + 2) * (1 + 1 / 2 ^ 22) ^ Suc k"
    using w'(3) by (simp add: mult.assoc mult.commute)
  then show ?case
    using w w' by simp
qed

lemma update_iterate_finite:
  assumes fmt: "24 \<le> prec fmt" "127 \<le> emax fmt"
    and m: "0 < m" "m \<le> 1 + 1 / 2 ^ 23"
    and a: "pow2 (- 126) \<le> a" "a \<le> 2 * (m - 1)"
    and v: "0 \<le> v" "v \<le> 2"
    and k: "k \<le> 100000000"
  shows "\<exists>w. ((\<lambda>x. ffma fmt x (Fin m) (Fin a)) ^^ k) (Fin v) = Fin w \<and> 0 \<le> w \<and> w < 2 ^ 41"
proof -
  from update_iterate_bound [OF assms] obtain w
    where w: "((\<lambda>x. ffma fmt x (Fin m) (Fin a)) ^^ k) (Fin v) = Fin w" "0 \<le> w"
      "w + 2 \<le> (v + 2) * (1 + 1 / 2 ^ 22) ^ k"
    by blast
  have "(v + 2) * (1 + 1 / 2 ^ 22) ^ k \<le> 4 * 2 ^ 39"
    using growth_upto [OF k] v by (intro mult_mono) simp_all
  then have "w < 2 ^ 41"
    using w(3) by simp
  with w show ?thesis
    by blast
qed

lemma seed_literal_bound:
  assumes fmt: "24 \<le> prec fmt" "127 \<le> emax fmt" and r: "r \<in> set seeds"
  shows "\<exists>v. rnd fmt r = Fin v \<and> 0 \<le> v \<and> v \<le> 2"
proof -
  let ?u = "pow2 (- int (prec fmt))"
  have r': "1 / 2 \<le> r" "r \<le> 1"
    using r by (auto simp: seeds_def)
  have "?u \<le> pow2 0"
    unfolding pow2_le_iff by simp
  then have u: "?u \<le> 1" "0 < ?u"
    by simp_all
  have "pow2 (emin fmt) \<le> pow2 (- 1)"
    unfolding pow2_le_iff using fmt(2) by (simp add: emin_def)
  also have "pow2 (- 1) = 1 / 2"
    by (simp add: pow2_def)
  finally have normal: "pow2 (emin fmt) \<le> r"
    using r'(1) by linarith
  have le: "r * (1 + ?u) \<le> 1 * 2"
    using r' u by (intro mult_mono) simp_all
  have "(2 :: rat) = pow2 1"
    by simp
  also have "\<dots> < pow2 (emax fmt + 1)"
    unfolding pow2_less_iff using fmt(2) by simp
  finally have "r * (1 + ?u) < pow2 (emax fmt + 1)"
    using le by linarith
  from rnd_normal_bound [OF normal this] le show ?thesis
    by (metis mult_1 order_trans)
qed

lemma sp_lane_finite:
  assumes "r \<in> set seeds" and "k \<le> 100000000"
  shows "\<exists>w. (sp_update ^^ k) (float_lit r) = Fin w \<and> 0 \<le> w \<and> w < 2 ^ 41"
proof -
  from seed_literal_bound [of binary32 r] assms(1) obtain v
    where v: "float_lit r = Fin v" "0 \<le> v" "v \<le> 2"
    by (auto simp: binary32_def float_lit_def)
  have "sp_update = (\<lambda>x. ffma binary32 x (Fin (8388609 / 8388608))
      (Fin (14073749 / 140737488355328)))"
    by (simp add: sp_update_def sp_constants fun_eq_iff)
  moreover have "\<exists>w. ((\<lambda>x. ffma binary32 x (Fin (8388609 / 8388608))
      (Fin (14073749 / 140737488355328))) ^^ k) (Fin v) = Fin w \<and> 0 \<le> w \<and> w < 2 ^ 41"
    using v(2,3) assms(2)
    by (intro update_iterate_finite) (simp_all add: binary32_def pow2_def)
  ultimately show ?thesis
    by (simp only: v(1))
qed

lemma dp_lane_finite:
  assumes "r \<in> set seeds" and "k \<le> 100000000"
  shows "\<exists>w. (dp_update ^^ k) (double_lit r) = Fin w \<and> 0 \<le> w \<and> w < 2 ^ 41"
proof -
  from seed_literal_bound [of binary64 r] assms(1) obtain v
    where v: "double_lit r = Fin v" "0 \<le> v" "v \<le> 2"
    by (auto simp: binary64_def double_lit_def)
  have "dp_update = (\<lambda>x. ffma binary64 x (Fin (4503600077730459 / 4503599627370496))
      (Fin (944473296573929 / 9444732965739290427392)))"
    by (simp add: dp_update_def dp_constants fun_eq_iff)
  moreover have "\<exists>w. ((\<lambda>x. ffma binary64 x (Fin (4503600077730459 / 4503599627370496))
      (Fin (944473296573929 / 9444732965739290427392))) ^^ k) (Fin v) = Fin w
      \<and> 0 \<le> w \<and> w < 2 ^ 41"
    using v(2,3) assms(2)
    by (intro update_iterate_finite) (simp_all add: binary64_def pow2_def)
  ultimately show ?thesis
    by (simp only: v(1))
qed

lemma sp_accumulators_after:
  "accumulators (kernel_loop sp_step 0 n sp_init)
     = map (\<lambda>seed. replicate 16 ((sp_update ^^ unat n) (float_lit seed))) seeds"
  by (simp only: kernel_loop_funpow sp_init_splat sp_steps_splat accumulators_splat)

lemma dp_accumulators_after:
  "accumulators (kernel_loop dp_step 0 n dp_init)
     = map (\<lambda>seed. replicate 8 ((dp_update ^^ unat n) (double_lit seed))) seeds"
  by (simp only: kernel_loop_funpow dp_init_splat dp_steps_splat accumulators_splat)

lemma unat_within_budget: "k \<le> ITERATIONS \<Longrightarrow> unat k \<le> 100000000"
  by (simp add: ITERATIONS_def word_le_nat_alt)

lemma largest_finite_bound:
  "2 ^ 41 \<le> largest_finite binary32" "2 ^ 41 \<le> largest_finite binary64"
  by (simp_all add: largest_finite_def binary32_def binary64_def pow2_def)

text \<open>
  Claim C8. Within the iteration budget of the program no accumulator overflows, in
  either precision: after any number of loop steps up to 100000000, every lane of every
  accumulator is a finite, non-negative value below \<open>2 ^ 41\<close>, far inside the range of
  \<open>float\<close> and of \<open>double\<close>. The values are those of the rounded arithmetic: the
  literals rounded to the precision and every fused multiply-add rounded to nearest.
\<close>

theorem accumulators_never_overflow:
  "(\<forall>k. k \<le> ITERATIONS \<longrightarrow>
      (\<forall>acc \<in> set (accumulators (kernel_loop sp_step 0 k sp_init)).
         \<forall>x \<in> set acc. \<exists>v. x = Fin v \<and> 0 \<le> v \<and> v < 2 ^ 41)
    \<and> (\<forall>acc \<in> set (accumulators (kernel_loop dp_step 0 k dp_init)).
         \<forall>x \<in> set acc. \<exists>v. x = Fin v \<and> 0 \<le> v \<and> v < 2 ^ 41))
   \<and> 2 ^ 41 \<le> largest_finite binary32 \<and> 2 ^ 41 \<le> largest_finite binary64"
proof -
  have "\<exists>v. x = Fin v \<and> 0 \<le> v \<and> v < 2 ^ 41"
    if "k \<le> ITERATIONS" "acc \<in> set (accumulators (kernel_loop sp_step 0 k sp_init))"
      "x \<in> set acc" for k acc x
  proof -
    from that(2) obtain r where r: "r \<in> set seeds"
      "acc = replicate 16 ((sp_update ^^ unat k) (float_lit r))"
      unfolding sp_accumulators_after by auto
    then have "x = (sp_update ^^ unat k) (float_lit r)"
      using that(3) by simp
    then show ?thesis
      using sp_lane_finite [OF r(1) unat_within_budget [OF that(1)]] by simp
  qed
  moreover have "\<exists>v. x = Fin v \<and> 0 \<le> v \<and> v < 2 ^ 41"
    if "k \<le> ITERATIONS" "acc \<in> set (accumulators (kernel_loop dp_step 0 k dp_init))"
      "x \<in> set acc" for k acc x
  proof -
    from that(2) obtain r where r: "r \<in> set seeds"
      "acc = replicate 8 ((dp_update ^^ unat k) (double_lit r))"
      unfolding dp_accumulators_after by auto
    then have "x = (dp_update ^^ unat k) (double_lit r)"
      using that(3) by simp
    then show ?thesis
      using dp_lane_finite [OF r(1) unat_within_budget [OF that(1)]] by simp
  qed
  ultimately show ?thesis
    using largest_finite_bound by blast
qed

text \<open>After the first step every lane of \<open>v0\<close> holds \<open>4194305 / 4194304\<close>.\<close>

theorem accumulators_never_overflow_witness:
  "(1 :: size_t) \<le> ITERATIONS
   \<and> replicate 16 (Fin (4194305 / 4194304))
       \<in> set (accumulators (kernel_loop sp_step 0 1 sp_init))
   \<and> Fin (4194305 / 4194304) \<in> set (replicate 16 (Fin (4194305 / 4194304)))
   \<and> (\<exists>v. Fin (4194305 / 4194304) = Fin v \<and> 0 \<le> v \<and> v < 2 ^ 41)"
proof -
  have k: "(1 :: size_t) \<le> ITERATIONS"
    by (simp add: ITERATIONS_def)
  have one: "float_lit 1 = Fin 1"
    using rnd_exact_nat [of 1 binary32] by (simp add: float_lit_def binary32_def)
  have "rnd binary32 (1 * (8388609 / 8388608) + 14073749 / 140737488355328)
      = Fin (of_int 8388610 * pow2 (- 23))"
    by (rule rnd_pos_eqI [where k = 0]) (simp_all add: pow2_def binary32_def emin_def)
  then have "sp_update (float_lit 1) = Fin (4194305 / 4194304)"
    by (simp add: sp_update_def sp_constants one pow2_def)
  then have acc: "replicate 16 (Fin (4194305 / 4194304))
       \<in> set (accumulators (kernel_loop sp_step 0 1 sp_init))"
    unfolding sp_accumulators_after by (simp add: seeds_def)
  have x: "Fin (4194305 / 4194304) \<in> set (replicate 16 (Fin (4194305 / 4194304)))"
    by simp
  from accumulators_never_overflow k acc x
  have "\<exists>v. Fin (4194305 / 4194304) = Fin v \<and> 0 \<le> v \<and> v < 2 ^ 41"
    by blast
  with k acc x show ?thesis
    by blast
qed

section \<open>Properties of the timing harness\<close>

lemma returned_sp: "returned (benchmark_avx512_sp n el) = fdiv binary64 (sp_flops n) (Fin el)"
  by (simp add: benchmark_avx512_sp_def Let_def)

lemma returned_dp: "returned (benchmark_avx512_dp n el) = fdiv binary64 (dp_flops n) (Fin el)"
  by (simp add: benchmark_avx512_dp_def Let_def)

lemma double_of_size_exact:
  "unat n < 2 ^ 53 \<Longrightarrow> double_of_size n = Fin (of_nat (unat n))"
  unfolding double_of_size_def by (rule rnd_binary64_nat)

lemma double_of_nat_small: "n < 2 ^ 53 \<Longrightarrow> double_of_int (int n) = Fin (of_nat n)"
  using rnd_binary64_nat [of n] by (simp add: double_of_int_def)

lemma fmul_nat_exact:
  "a * b < 2 ^ 53 \<Longrightarrow> fmul binary64 (Fin (of_nat a)) (Fin (of_nat b)) = Fin (of_nat (a * b))"
  using rnd_binary64_nat [of "a * b"] by simp

lemma flops_exact:
  assumes "unat n * 10 * k * 2 < 2 ^ 53" and "k = 16 \<or> k = 8"
  shows "fmul binary64 (fmul binary64 (fmul binary64 (double_of_size n)
       (double_of_size UNROLL)) (double_of_int (int k))) (double_of_int 2)
     = Fin (of_nat (unat n * 10 * k * 2))"
proof -
  have b: "unat n < 2 ^ 53" "unat n * 10 < 2 ^ 53" "unat n * 10 * k < 2 ^ 53" "k < 2 ^ 53"
    using assms by auto
  have "double_of_size UNROLL = Fin (of_nat 10)"
    using double_of_size_exact [of UNROLL] by (simp add: UNROLL_def)
  moreover have "double_of_int 2 = Fin (of_nat 2)"
    using double_of_nat_small [of 2] by simp
  ultimately show ?thesis
    using b assms(1)
    by (simp only: double_of_size_exact double_of_nat_small fmul_nat_exact)
qed

lemma sp_flops_exact:
  "unat n * 320 < 2 ^ 53 \<Longrightarrow> sp_flops n = Fin (of_nat (unat n * 10 * 16 * 2))"
  using flops_exact [of n 16] by (simp add: sp_flops_def)

lemma dp_flops_exact:
  "unat n * 160 < 2 ^ 53 \<Longrightarrow> dp_flops n = Fin (of_nat (unat n * 10 * 8 * 2))"
  using flops_exact [of n 8] by (simp add: dp_flops_def)

lemma fmul_coarse:
  assumes "1 / 2 \<le> a" and "a \<le> 2 ^ 80" and "2 \<le> c" and "c \<le> 16"
  shows "\<exists>v. fmul binary64 (Fin a) (Fin c) = Fin v \<and> a \<le> v \<and> v \<le> 32 * a"
proof -
  have a: "0 < a" using assms(1) by linarith
  have lo: "2 * a \<le> a * c"
    using assms(3) a by (simp add: mult.commute)
  have hi: "a * c \<le> a * 16"
    using assms(4) a by (intro mult_left_mono) simp_all
  have "a * c \<le> 2 ^ 80 * 16"
    using hi assms(2) by linarith
  moreover have "(2::rat) ^ 80 * 16 \<le> 2 ^ 100"
    by simp
  ultimately have "1 / 2 \<le> a * c" "a * c \<le> 2 ^ 100"
    using lo assms(1) by linarith+
  from rnd_binary64_coarse [OF this] obtain v where
    "rnd binary64 (a * c) = Fin v" "a * c / 2 \<le> v" "v \<le> 2 * (a * c)"
    by blast
  then have "fmul binary64 (Fin a) (Fin c) = Fin v" "a \<le> v" "v \<le> 32 * a"
    using lo hi by (simp, linarith, linarith)
  then show ?thesis
    by blast
qed

lemma double_of_size_coarse:
  assumes "0 < n"
  shows "\<exists>v. double_of_size n = Fin v \<and> 1 / 2 \<le> v \<and> v \<le> 2 ^ 65"
proof -
  let ?y = "of_nat (unat n) :: rat"
  have "0 < unat n" using assms by (simp add: unat_gt_0 word_neq_0_conv)
  then have "1 \<le> unat n" by simp
  then have "(of_nat 1 :: rat) \<le> of_nat (unat n)" by (simp only: of_nat_le_iff)
  then have lo: "1 \<le> ?y" by simp
  have "unat n < 2 ^ 64" using unsigned_less [of n] by simp
  then have "?y < of_nat (2 ^ 64)" by (simp only: of_nat_less_iff)
  then have hi: "?y \<le> 2 ^ 64" by simp
  have "(2::rat) ^ 64 \<le> 2 ^ 100" by simp
  then have "1 / 2 \<le> ?y" "?y \<le> 2 ^ 100" using lo hi by linarith+
  from rnd_binary64_coarse [OF this] obtain v where
    "rnd binary64 ?y = Fin v" "?y / 2 \<le> v" "v \<le> 2 * ?y"
    by blast
  moreover have "2 * (2::rat) ^ 64 = 2 ^ 65" by simp
  ultimately have "double_of_size n = Fin v" "1 / 2 \<le> v" "v \<le> 2 ^ 65"
    using lo hi by (simp add: double_of_size_def, linarith, linarith)
  then show ?thesis
    by blast
qed

lemma double_of_int_small: "0 \<le> k \<Longrightarrow> k < 2 ^ 53 \<Longrightarrow> double_of_int k = Fin (of_int k)"
  using double_of_nat_small [of "nat k"] by (simp add: nat_less_iff)

lemma flops_positive:
  assumes "0 < n" and "k = 16 \<or> k = 8"
  shows "\<exists>v. fmul binary64 (fmul binary64 (fmul binary64 (double_of_size n)
       (double_of_size UNROLL)) (double_of_int k)) (double_of_int 2) = Fin v \<and> 0 < v"
proof -
  have c: "double_of_size UNROLL = Fin 10" "double_of_int 2 = Fin 2"
    "double_of_int k = Fin (of_int k)"
    using double_of_size_exact [of UNROLL] double_of_int_small [of 2]
      double_of_int_small [of k] assms(2)
    by (auto simp: UNROLL_def)
  from double_of_size_coarse [OF assms(1)] obtain a where
    a: "double_of_size n = Fin a" "1 / 2 \<le> a" "a \<le> 2 ^ 65" by blast
  have "\<exists>v. fmul binary64 (Fin a) (Fin 10) = Fin v \<and> a \<le> v \<and> v \<le> 32 * a"
    using a by (intro fmul_coarse) simp_all
  then obtain b where b: "fmul binary64 (Fin a) (Fin 10) = Fin b" "a \<le> b" "b \<le> 32 * a"
    by blast
  have "\<exists>v. fmul binary64 (Fin b) (Fin (of_int k)) = Fin v \<and> b \<le> v \<and> v \<le> 32 * b"
    using a b assms(2) by (intro fmul_coarse) auto
  then obtain d where d: "fmul binary64 (Fin b) (Fin (of_int k)) = Fin d" "b \<le> d" "d \<le> 32 * b"
    by blast
  have "\<exists>v. fmul binary64 (Fin d) (Fin 2) = Fin v \<and> d \<le> v \<and> v \<le> 32 * d"
    using a b d by (intro fmul_coarse) auto
  then obtain e where e: "fmul binary64 (Fin d) (Fin 2) = Fin e" "d \<le> e"
    by blast
  have "0 < e" using a b d e by linarith
  then show ?thesis
    by (simp only: c a b d e) simp
qed

lemma flops_positive_of:
  assumes "0 < n"
  shows "\<exists>v. sp_flops n = Fin v \<and> 0 < v" and "\<exists>v. dp_flops n = Fin v \<and> 0 < v"
  using flops_positive [OF assms, of 16] flops_positive [OF assms, of 8]
  by (simp_all add: sp_flops_def dp_flops_def)

lemma returned_flops:
  "returned (benchmark_of p n el)
     = fdiv binary64 (case p of Single \<Rightarrow> sp_flops n | Double \<Rightarrow> dp_flops n) (Fin el)"
  by (cases p) (simp_all add: benchmark_of_def returned_sp returned_dp)

lemma returned_zero_elapsed:
  assumes "0 < n"
  shows "returned (benchmark_of p n 0) = PInf"
  using flops_positive_of [OF assms]
  by (cases p) (auto simp: returned_flops signed_inf_def)

lemma returned_negative_elapsed:
  assumes "0 < n" and "el < 0"
  shows "returned (benchmark_of p n el) = NInf
         \<or> (\<exists>v. returned (benchmark_of p n el) = Fin v \<and> v \<le> 0)"
proof -
  obtain f where f: "(case p of Single \<Rightarrow> sp_flops n | Double \<Rightarrow> dp_flops n) = Fin f" "0 < f"
    using flops_positive_of [OF assms(1)] by (cases p) auto
  have "f / el \<le> 0"
    using f(2) assms(2) by (simp add: divide_nonneg_neg divide_le_0_iff)
  from rnd_nonpos [OF this, of binary64] show ?thesis
    using assms(2) by (simp add: returned_flops f)
qed

lemma lanes_values: "lanes Single = 16" "lanes Double = 8"
  by (simp_all add: lanes_def element_bits_def)

lemma double_of_int_10: "double_of_int 10 = double_of_size UNROLL"
  by (simp add: double_of_int_def double_of_size_def UNROLL_def)

lemma returned_formula: "returned (benchmark_of p n el) = throughput_formula p n el"
  by (cases p)
    (simp_all add: benchmark_of_def returned_sp returned_dp throughput_formula_def
      sp_flops_def dp_flops_def lanes_values double_of_int_10)

lemma returned_exact_count:
  assumes "unat n * 10 * lanes p * 2 < 2 ^ 53" and "el \<noteq> 0"
  shows "returned (benchmark_of p n el) = rnd binary64 (of_nat (unat n * 10 * lanes p * 2) / el)"
proof (cases p)
  case Single
  with assms(1) have "sp_flops n = Fin (of_nat (unat n * 10 * 16 * 2))"
    by (intro sp_flops_exact) (simp add: lanes_values)
  then show ?thesis
    using assms(2) Single by (simp add: benchmark_of_def returned_sp lanes_values)
next
  case Double
  with assms(1) have "dp_flops n = Fin (of_nat (unat n * 10 * 8 * 2))"
    by (intro dp_flops_exact) (simp add: lanes_values)
  then show ?thesis
    using assms(2) Double by (simp add: benchmark_of_def returned_dp lanes_values)
qed

text \<open>
  Claim C1. For every iteration count and each precision, the value the benchmark returns
  is the formula of the specification, \<open>(iteration_count * 10 * lanes * 2) /
  elapsed_seconds\<close>, computed in \<open>double\<close>, with 16 lanes for single and 8 for double
  precision. Whenever the operation count is below \<open>2 ^ 53\<close> it is computed without any
  rounding, and the returned value is the exact quotient of the count by the elapsed
  seconds, rounded once to \<open>double\<close>.
\<close>

theorem single_kernel_throughput:
  "returned (benchmark_of p n el) = throughput_formula p n el
   \<and> lanes Single = 16 \<and> lanes Double = 8
   \<and> (unat n * 10 * lanes p * 2 < 2 ^ 53 \<longrightarrow> el \<noteq> 0 \<longrightarrow>
        returned (benchmark_of p n el)
          = rnd binary64 (of_nat (unat n * 10 * lanes p * 2) / el))"
  using returned_formula [of p n el] returned_exact_count [of n p el] lanes_values
  by blast

text \<open>
  The scenario of the specification: 1000 iterations in single precision and an elapsed
  time of 0.0001 seconds (the \<open>double\<close> nearest to it) give 3200000000 exactly.
\<close>

theorem single_kernel_throughput_witness:
  "unat (1000 :: size_t) * 10 * lanes Single * 2 < 2 ^ 53
   \<and> (7378697629483821 / 73786976294838206464 :: rat) \<noteq> 0
   \<and> returned (benchmark_avx512_sp 1000 (7378697629483821 / 73786976294838206464))
     = Fin 3200000000"
proof -
  let ?el = "7378697629483821 / 73786976294838206464 :: rat"
  have "unat (1000 :: size_t) * 10 * lanes Single * 2 < 2 ^ 53"
    by (simp add: lanes_values)
  moreover have "?el \<noteq> 0"
    by simp
  ultimately have "returned (benchmark_of Single 1000 ?el)
      = rnd binary64 (of_nat (unat (1000 :: size_t) * 10 * lanes Single * 2) / ?el)"
    using single_kernel_throughput [of Single 1000 ?el] by blast
  also have "of_nat (unat (1000 :: size_t) * 10 * lanes Single * 2) / ?el
      = (23611832414348226068480000 / 7378697629483821 :: rat)"
    by (simp add: lanes_values)
  also have "rnd binary64 (23611832414348226068480000 / 7378697629483821)
      = Fin (of_int 6710886400000000 * pow2 (- 21))"
    by (rule rnd_pos_eqI [where k = 31])
      (simp_all add: pow2_def binary64_def emin_def)
  also have "of_int 6710886400000000 * pow2 (- 21) = (3200000000 :: rat)"
    by (simp add: pow2_def)
  finally show ?thesis
    by (simp add: benchmark_of_def lanes_values)
qed

section \<open>Properties of the report driver\<close>

lemma outputs_append [simp]: "outputs (xs @ ys) = outputs xs @ outputs ys"
  by (induction xs rule: outputs.induct) simp_all

lemma kernels_append [simp]: "kernels (xs @ ys) = kernels xs @ kernels ys"
  by (induction xs rule: kernels.induct) simp_all

lemma outputs_map_Kernel [simp]: "outputs (map (\<lambda>i. Kernel (f i) n) ids) = []"
  by (induction ids) simp_all

lemma kernels_map_Kernel [simp]:
  "kernels (map (\<lambda>i. Kernel (f i) n) ids) = map (\<lambda>i. (f i, n)) ids"
  by (induction ids) simp_all

lemma foldl_insert_line:
  "b \<noteq> Fully_buffered \<Longrightarrow>
   foldl (insert_item b) \<lparr>device = d, buffer = []\<rparr> xs = \<lparr>device = d @ xs, buffer = []\<rparr>"
proof (induction xs arbitrary: d)
  case Nil
  then show ?case by simp
next
  case (Cons x xs)
  have "insert_item b \<lparr>device = d, buffer = []\<rparr> x = \<lparr>device = d @ [x], buffer = []\<rparr>"
    using Cons.prems by (cases b) (simp_all add: insert_item_def)
  then show ?case
    using Cons.IH [OF Cons.prems, of "d @ [x]"] by simp
qed

lemma foldl_insert_full:
  "foldl (insert_item Fully_buffered) \<lparr>device = d, buffer = bs\<rparr> xs
     = \<lparr>device = d, buffer = bs @ xs\<rparr>"
  by (induction xs arbitrary: bs) (simp_all add: insert_item_def)

lemma standard_output_exited:
  "status s = Exited code \<Longrightarrow> standard_output b s = printed s"
  by (cases b) (simp_all add: standard_output_def foldl_insert_line foldl_insert_full)

lemma standard_output_killed:
  assumes "status s = Killed f"
  shows "standard_output b s = (if b = Fully_buffered then [] else printed s)"
  using assms by (simp add: standard_output_def foldl_insert_line foldl_insert_full)

lemma double_lit_nat: "n < 2 ^ 53 \<Longrightarrow> double_lit (of_nat n) = Fin (of_nat n)"
  unfolding double_lit_def by (rule rnd_binary64_nat)

lemma double_lit_giga: "double_lit 1000000000 = Fin 1000000000"
  using double_lit_nat [of 1000000000] by simp

lemma call_kernel_running:
  assumes "avx512f m" and "status s = Running"
  shows "call_kernel m c p n s
    = (s\<lparr>history := history s @ [Kernel c n]\<rparr>, Some (returned (benchmark_of p n (elapsed_of m c))))"
  using assms by (simp add: call_kernel_def run_kernel_def)

lemma single_thread_running:
  assumes "avx512f m" and "status s = Running"
  shows "single_thread m p s
    = s\<lparr>history := history s @
          [Kernel (Single_thread p) ITERATIONS,
           Output (Result_line p
             (gflops (returned (benchmark_of p ITERATIONS (elapsed_of m (Single_thread p))))))]\<rparr>"
  using assms by (simp add: single_thread_def call_kernel_running print_def)

lemma run_workers_running:
  assumes "avx512f m" and "status s = Running"
  shows "run_workers m N p share ids results s
    = (s\<lparr>history := history s @ map (\<lambda>i. Kernel (Worker N p i) share) ids\<rparr>,
       fold (\<lambda>i rs. rs[i := returned (benchmark_of p share (elapsed_of m (Worker N p i)))]) ids results)"
  using assms(2)
proof (induction ids arbitrary: results s)
  case Nil
  then show ?case by simp
next
  case (Cons i ids)
  then show ?case
    by (simp add: call_kernel_running [OF assms(1)])
qed

lemma fold_update_upt_nth:
  "length rs = n \<Longrightarrow> k \<le> n \<Longrightarrow>
   fold (\<lambda>i rs. rs[i := f i]) [0..<k] rs = map f [0..<k] @ drop k rs"
proof (induction k)
  case 0
  then show ?case by simp
next
  case (Suc k)
  then have "fold (\<lambda>i rs. rs[i := f i]) [0..<Suc k] rs = (map f [0..<k] @ drop k rs)[k := f k]"
    by simp
  also have "\<dots> = map f [0..<k] @ (drop k rs)[0 := f k]"
    by (simp add: list_update_append)
  also have "(drop k rs)[0 := f k] = f k # drop (Suc k) rs"
    using Suc.prems by (cases "drop k rs") (auto simp: drop_Suc drop_tl)
  finally show ?case by simp
qed

lemma fold_update_all:
  "length rs = n \<Longrightarrow> fold (\<lambda>i rs. rs[i := f i]) [0..<n] rs = map f [0..<n]"
  using fold_update_upt_nth [of rs n n f] by simp

lemma run_phase_running:
  assumes "avx512f m" and "status s = Running"
  shows "run_workers m N p share (worker_ids N) (replicate (nat (sint N)) (Fin 0)) s
    = (s\<lparr>history := history s @ map (\<lambda>i. Kernel (Worker N p i) share) [0 ..< nat (sint N)]\<rparr>,
       worker_results m N p share)"
  unfolding run_workers_running [OF assms] worker_results_def worker_ids_def
  by (simp add: fold_update_all)

lemma round_log_lines:
  "round_log m N share =
     map (\<lambda>i. Kernel (Worker N Single i) share) [0 ..< nat (sint N)]
     @ map (\<lambda>i. Kernel (Worker N Double i) share) [0 ..< nat (sint N)]
     @ map Output (round_lines m N share)"
  by (simp add: round_log_def round_lines_def gflops_def double_lit_giga total_of_def
      worker_results_def worker_ids_def benchmark_of_def)

lemma run_multithread_benchmark_running:
  assumes "avx512f m" and "status s = Running" and "0 \<le> sint N"
    and "iterations_per_thread N = Some share"
  shows "run_multithread_benchmark m N s = s\<lparr>history := history s @ round_log m N share\<rparr>"
  using assms
  by (simp add: run_multithread_benchmark_def run_phase_running print_def Let_def
      round_log_lines round_lines_def)

lemma outputs_round_log: "outputs (round_log m N share) = round_lines m N share"
  by (simp add: round_log_lines round_lines_def)

lemma kernels_round_log:
  "kernels (round_log m N share) = worker_calls N Single share @ worker_calls N Double share"
  by (simp add: round_log_lines round_lines_def worker_calls_def worker_ids_def)

lemma printed_round:
  assumes "avx512f m" and "0 \<le> sint N" and "iterations_per_thread N = Some share"
  shows "printed (run_multithread_benchmark m N start) = round_lines m N share"
  using assms
  by (simp add: run_multithread_benchmark_running start_def printed_def outputs_round_log)

lemma calls_round:
  assumes "avx512f m" and "0 \<le> sint N" and "iterations_per_thread N = Some share"
  shows "calls (run_multithread_benchmark m N start)
    = worker_calls N Single share @ worker_calls N Double share"
  using assms
  by (simp add: run_multithread_benchmark_running start_def calls_def kernels_round_log)

lemma shares_of_levels:
  "iterations_per_thread 4 = Some 25000000" "iterations_per_thread 8 = Some 12500000"
  "iterations_per_thread 16 = Some 6250000"
  by (simp_all add: iterations_per_thread_def per_thread_share_def ITERATIONS_def)

lemma main_supported:
  assumes "avx512f m"
  shows "main m =
    \<lparr>history =
       [Output Banner, Output (Parameters 100000000 10), Output Single_header,
        Kernel (Single_thread Single) 100000000,
        Output (Result_line Single
          (gflops (returned (benchmark_avx512_sp 100000000 (elapsed_of m (Single_thread Single)))))),
        Kernel (Single_thread Double) 100000000,
        Output (Result_line Double
          (gflops (returned (benchmark_avx512_dp 100000000 (elapsed_of m (Single_thread Double)))))),
        Output (Hardware_threads (sint (hardware_concurrency m)))]
       @ round_log m 4 25000000 @ round_log m 8 12500000 @ round_log m 16 6250000
       @ [Output Footer],
     status = Exited 0\<rparr>"
  using assms
  by (simp add: main_def main_steps_def start_def print_def exit_with_def
      single_thread_running run_multithread_benchmark_running shares_of_levels
      benchmark_of_def ITERATIONS_def UNROLL_def)

lemma printed_main_supported:
  assumes "avx512f m"
  shows "printed (main m) =
       [Banner, Parameters 100000000 10, Single_header,
        Result_line Single
          (gflops (returned (benchmark_avx512_sp 100000000 (elapsed_of m (Single_thread Single))))),
        Result_line Double
          (gflops (returned (benchmark_avx512_dp 100000000 (elapsed_of m (Single_thread Double))))),
        Hardware_threads (sint (hardware_concurrency m))]
       @ round_lines m 4 25000000 @ round_lines m 8 12500000 @ round_lines m 16 6250000
       @ [Footer]"
  unfolding printed_def main_supported [OF assms] by (simp add: outputs_round_log)

lemma calls_main_supported:
  assumes "avx512f m"
  shows "calls (main m) =
       [(Single_thread Single, 100000000), (Single_thread Double, 100000000)]
       @ worker_calls 4 Single 25000000 @ worker_calls 4 Double 25000000
       @ worker_calls 8 Single 12500000 @ worker_calls 8 Double 12500000
       @ worker_calls 16 Single 6250000 @ worker_calls 16 Double 6250000"
  unfolding calls_def main_supported [OF assms] by (simp add: kernels_round_log)

lemma status_main_supported: "avx512f m \<Longrightarrow> status (main m) = Exited 0"
  by (simp add: main_supported)

lemma fixed2_two_decimals:
  "\<exists>n. \<bar>of_nat n / 100 - \<bar>r\<bar>\<bar> \<le> 1 / 200
     \<and> fixed2 (Fin r) = (if r < 0 then ''-'' else []) @ decimal (n div 100) @ ''.''
           @ [digit_char (n div 10), digit_char n]"
proof -
  let ?k = "round_half_even (\<bar>r\<bar> * 100)"
  have k: "0 \<le> ?k"
    by (simp add: rhe_nonneg)
  have "\<bar>of_int ?k - \<bar>r\<bar> * 100\<bar> \<le> 1 / 2"
    by (rule rhe_error)
  then have "\<bar>of_int ?k / 100 - \<bar>r\<bar>\<bar> \<le> 1 / 200"
    by (simp add: abs_le_iff field_simps)
  moreover have "(of_nat (nat ?k) :: rat) = of_int ?k"
    using k by simp
  ultimately have "\<bar>of_nat (nat ?k) / 100 - \<bar>r\<bar>\<bar> \<le> 1 / 200"
    by simp
  then show ?thesis
    by (intro exI [of _ "nat ?k"]) (simp add: fixed2_def Let_def)
qed

lemma fixed2_nat:
  "fixed2 (Fin (of_nat k)) = decimal k @ ''.00''"
proof -
  have "\<bar>of_nat k :: rat\<bar> * 100 = of_int (int (k * 100))"
    by simp
  then have "round_half_even (\<bar>of_nat k :: rat\<bar> * 100) = int (k * 100)"
    by (simp only: rhe_of_int)
  then have n: "nat (round_half_even (\<bar>of_nat k :: rat\<bar> * 100)) = k * 100"
    by (simp only: nat_int)
  have "k * 100 div 10 mod 10 = 0" "k * 100 mod 10 = 0"
    by presburger+
  then show ?thesis
    unfolding fixed2_def fp.case Let_def n by (simp add: digit_char_def)
qed

lemma gflops_whole:
  assumes "n < 2 ^ 53" and "n = k * 1000000000"
  shows "gflops (Fin (of_nat n)) = decimal k @ ''.00''"
proof -
  have "k < 2 ^ 53" using assms by simp
  then have "rnd binary64 (of_nat k) = Fin (of_nat k)"
    by (rule rnd_binary64_nat)
  moreover have "(of_nat n :: rat) / 1000000000 = of_nat k"
    by (simp add: assms(2))
  ultimately show ?thesis
    by (simp add: gflops_def double_lit_giga fixed2_nat)
qed

lemma decimal_64: "decimal 64 = ''64''" and decimal_32: "decimal 32 = ''32''"
  by (simp_all add: decimal.simps digit_char_def)

lemma fadd_nat_exact:
  "a + b < 2 ^ 53 \<Longrightarrow> fadd binary64 (Fin (of_nat a)) (Fin (of_nat b)) = Fin (of_nat (a + b))"
  using rnd_binary64_nat [of "a + b"] by simp

lemma foldl_fadd_nats:
  "a + sum_list ns < 2 ^ 53 \<Longrightarrow>
   foldl (fadd binary64) (Fin (of_nat a)) (map (\<lambda>n. Fin (of_nat n)) ns)
     = Fin (of_nat (a + sum_list ns))"
proof (induction ns arbitrary: a)
  case Nil
  then show ?case by simp
next
  case (Cons n ns)
  have "a + n < 2 ^ 53" and b: "(a + n) + sum_list ns < 2 ^ 53"
    using Cons.prems by simp_all
  then have "fadd binary64 (Fin (of_nat a)) (Fin (of_nat n)) = Fin (of_nat (a + n))"
    by (intro fadd_nat_exact)
  then have "foldl (fadd binary64) (Fin (of_nat a)) (map (\<lambda>n. Fin (of_nat n)) (n # ns))
      = foldl (fadd binary64) (Fin (of_nat (a + n))) (map (\<lambda>n. Fin (of_nat n)) ns)"
    by (simp only: list.map foldl.simps)
  also have "\<dots> = Fin (of_nat ((a + n) + sum_list ns))"
    using b by (rule Cons.IH)
  finally show ?case
    by (simp add: add.assoc)
qed

lemma total_of_nats:
  "sum_list ns < 2 ^ 53 \<Longrightarrow>
   total_of (map (\<lambda>n. Fin (of_nat n)) ns) = Fin (of_nat (sum_list ns))"
  using foldl_fadd_nats [of 0 ns] by (simp add: total_of_def)

text \<open>
  On the example machine every kernel call takes half a second: a single-thread call
  returns 64 and 32 billion operations per second, a worker of the round with four
  threads 16 and 8 billion, and the four of them add up to 64 and 32 billion again.
\<close>

lemma quiet_single:
  "gflops (returned (benchmark_avx512_sp ITERATIONS (1 / 2))) = ''64.00''"
  "gflops (returned (benchmark_avx512_dp ITERATIONS (1 / 2))) = ''32.00''"
proof -
  have "sp_flops 100000000 = Fin (of_nat (unat (100000000 :: size_t) * 10 * 16 * 2))"
    by (rule sp_flops_exact) simp
  then have "returned (benchmark_avx512_sp ITERATIONS (1 / 2)) = Fin (of_nat 64000000000)"
    using rnd_binary64_nat [of 64000000000] by (simp add: returned_sp ITERATIONS_def)
  moreover have "gflops (Fin (of_nat 64000000000)) = ''64.00''"
    by (rule trans [OF gflops_whole [of 64000000000 64]]) (simp_all add: decimal_64)
  ultimately show "gflops (returned (benchmark_avx512_sp ITERATIONS (1 / 2))) = ''64.00''"
    by (simp only:)
  have "dp_flops 100000000 = Fin (of_nat (unat (100000000 :: size_t) * 10 * 8 * 2))"
    by (rule dp_flops_exact) simp
  then have "returned (benchmark_avx512_dp ITERATIONS (1 / 2)) = Fin (of_nat 32000000000)"
    using rnd_binary64_nat [of 32000000000] by (simp add: returned_dp ITERATIONS_def)
  moreover have "gflops (Fin (of_nat 32000000000)) = ''32.00''"
    by (rule trans [OF gflops_whole [of 32000000000 32]]) (simp_all add: decimal_32)
  ultimately show "gflops (returned (benchmark_avx512_dp ITERATIONS (1 / 2))) = ''32.00''"
    by (simp only:)
qed

lemma quiet_values:
  "returned (benchmark_of Single 25000000 (1 / 2)) = Fin 16000000000"
  "returned (benchmark_of Double 25000000 (1 / 2)) = Fin 8000000000"
proof -
  have "sp_flops 25000000 = Fin (of_nat (unat (25000000 :: size_t) * 10 * 16 * 2))"
    by (rule sp_flops_exact) simp
  then show "returned (benchmark_of Single 25000000 (1 / 2)) = Fin 16000000000"
    using rnd_binary64_nat [of 16000000000] by (simp add: returned_flops)
  have "dp_flops 25000000 = Fin (of_nat (unat (25000000 :: size_t) * 10 * 8 * 2))"
    by (rule dp_flops_exact) simp
  then show "returned (benchmark_of Double 25000000 (1 / 2)) = Fin 8000000000"
    using rnd_binary64_nat [of 8000000000] by (simp add: returned_flops)
qed

lemma quiet_totals:
  "total_of [Fin 16000000000, Fin 16000000000, Fin 16000000000, Fin 16000000000]
     = Fin 64000000000"
  "total_of [Fin 8000000000, Fin 8000000000, Fin 8000000000, Fin 8000000000]
     = Fin 32000000000"
  using total_of_nats [of "[16000000000, 16000000000, 16000000000, 16000000000]"]
    total_of_nats [of "[8000000000, 8000000000, 8000000000, 8000000000]"]
  by simp_all

lemma quiet_printed:
  "fixed2 (fdiv binary64 (Fin 64000000000) (Fin 1000000000)) = ''64.00''"
  "fixed2 (fdiv binary64 (Fin 32000000000) (Fin 1000000000)) = ''32.00''"
proof -
  have g: "\<And>x. fixed2 (fdiv binary64 x (Fin 1000000000)) = gflops x"
    by (simp add: gflops_def double_lit_giga)
  have "gflops (Fin (of_nat 64000000000)) = ''64.00''"
    by (rule trans [OF gflops_whole [of 64000000000 64]]) (simp_all add: decimal_64)
  then show "fixed2 (fdiv binary64 (Fin 64000000000) (Fin 1000000000)) = ''64.00''"
    unfolding g by simp
  have "gflops (Fin (of_nat 32000000000)) = ''32.00''"
    by (rule trans [OF gflops_whole [of 32000000000 32]]) (simp_all add: decimal_32)
  then show "fixed2 (fdiv binary64 (Fin 32000000000) (Fin 1000000000)) = ''32.00''"
    unfolding g by simp
qed

lemma quiet_round_4:
  "round_log quiet_machine 4 25000000 =
     [Kernel (Worker 4 Single 0) 25000000, Kernel (Worker 4 Single 1) 25000000,
      Kernel (Worker 4 Single 2) 25000000, Kernel (Worker 4 Single 3) 25000000,
      Kernel (Worker 4 Double 0) 25000000, Kernel (Worker 4 Double 1) 25000000,
      Kernel (Worker 4 Double 2) 25000000, Kernel (Worker 4 Double 3) 25000000,
      Output (Round_header 4), Output (Result_line Single ''64.00''),
      Output (Result_line Double ''32.00'')]"
proof -
  have n: "sint (4 :: cint) = 4" "nat (4 :: int) = 4"
    by simp_all
  have e: "elapsed_of quiet_machine = (\<lambda>c. 1 / 2)"
    by (simp add: quiet_machine_def)
  have v: "returned (benchmark_avx512_sp 25000000 (1 / 2)) = Fin 16000000000"
    "returned (benchmark_avx512_dp 25000000 (1 / 2)) = Fin 8000000000"
    using quiet_values by (simp_all add: benchmark_of_def)
  have r: "\<And>x :: fp. map (\<lambda>i. x) [0 ..< 4] = [x, x, x, x]"
    by (simp add: upt_rec)
  have t: "foldl (fadd binary64) (Fin 0)
        [Fin 16000000000, Fin 16000000000, Fin 16000000000, Fin 16000000000] = Fin 64000000000"
    "foldl (fadd binary64) (Fin 0)
        [Fin 8000000000, Fin 8000000000, Fin 8000000000, Fin 8000000000] = Fin 32000000000"
    using quiet_totals by (simp_all only: total_of_def)
  show ?thesis
    unfolding round_log_def n e v r t quiet_printed
    by (simp add: upt_rec)
qed

text \<open>
  Claim C7. On a processor that implements the instructions, the program runs its phases
  in one fixed order and exits with status 0. Its actions are, in this order: the banner,
  the parameters and the header are printed; the single-precision benchmark is called
  with the full budget of 100000000 iterations and then its result is printed; the same
  for double precision; the number of hardware threads is printed; then come the rounds
  with 4, 8 and 16 workers in this order, and in each round the kernel calls of the
  single-precision workers (in the order in which their threads are created), those of
  the double-precision workers, and only then the header of the round and the two
  totals. A total is the sum of the values of the
  workers of the round, added in \<open>double\<close> from zero in the order of the worker ids.
  Every number is printed as the value divided by \<open>1e9\<close> in fixed notation with two
  decimals, and the printed number is within half a hundredth of the value it stands
  for. After the exit all of it is on standard output, however the stream is buffered.
\<close>

theorem report_driver_phases:
  assumes "avx512f m"
  shows "history (main m) =
       [Output Banner, Output (Parameters 100000000 10), Output Single_header,
        Kernel (Single_thread Single) ITERATIONS,
        Output (Result_line Single
          (fixed2 (fdiv binary64
             (returned (benchmark_avx512_sp ITERATIONS (elapsed_of m (Single_thread Single))))
             (Fin 1000000000)))),
        Kernel (Single_thread Double) ITERATIONS,
        Output (Result_line Double
          (fixed2 (fdiv binary64
             (returned (benchmark_avx512_dp ITERATIONS (elapsed_of m (Single_thread Double))))
             (Fin 1000000000)))),
        Output (Hardware_threads (sint (hardware_concurrency m)))]
       @ round_log m 4 25000000 @ round_log m 8 12500000 @ round_log m 16 6250000
       @ [Output Footer]
     \<and> status (main m) = Exited 0
     \<and> (\<forall>b. standard_output b (main m) = outputs (history (main m)))
     \<and> (\<forall>r. \<exists>n. \<bar>of_nat n / 100 - \<bar>r\<bar>\<bar> \<le> 1 / 200
            \<and> fixed2 (Fin r) = (if r < 0 then ''-'' else []) @ decimal (n div 100) @ ''.''
                  @ [digit_char (n div 10), digit_char n])"
proof -
  have "\<forall>b. standard_output b (main m) = outputs (history (main m))"
    using standard_output_exited [OF status_main_supported [OF assms]]
    by (simp add: printed_def)
  moreover have "\<forall>r. \<exists>n. \<bar>of_nat n / 100 - \<bar>r\<bar>\<bar> \<le> 1 / 200
            \<and> fixed2 (Fin r) = (if r < 0 then ''-'' else []) @ decimal (n div 100) @ ''.''
                  @ [digit_char (n div 10), digit_char n]"
    using fixed2_two_decimals by blast
  moreover have "history (main m) =
       [Output Banner, Output (Parameters 100000000 10), Output Single_header,
        Kernel (Single_thread Single) ITERATIONS,
        Output (Result_line Single
          (fixed2 (fdiv binary64
             (returned (benchmark_avx512_sp ITERATIONS (elapsed_of m (Single_thread Single))))
             (Fin 1000000000)))),
        Kernel (Single_thread Double) ITERATIONS,
        Output (Result_line Double
          (fixed2 (fdiv binary64
             (returned (benchmark_avx512_dp ITERATIONS (elapsed_of m (Single_thread Double))))
             (Fin 1000000000)))),
        Output (Hardware_threads (sint (hardware_concurrency m)))]
       @ round_log m 4 25000000 @ round_log m 8 12500000 @ round_log m 16 6250000
       @ [Output Footer]"
    unfolding main_supported [OF assms] by (simp add: ITERATIONS_def gflops_def double_lit_giga)
  ultimately show ?thesis
    using status_main_supported [OF assms] by simp
qed

text \<open>
  The example machine, up to the end of the round with four workers: the eight kernel
  calls of the round come after the line with the hardware threads and before the three
  lines of the round.
\<close>

theorem report_driver_phases_witness:
  "avx512f quiet_machine
   \<and> status (main quiet_machine) = Exited 0
   \<and> take 19 (history (main quiet_machine)) =
       [Output Banner, Output (Parameters 100000000 10), Output Single_header,
        Kernel (Single_thread Single) 100000000, Output (Result_line Single ''64.00''),
        Kernel (Single_thread Double) 100000000, Output (Result_line Double ''32.00''),
        Output (Hardware_threads 8),
        Kernel (Worker 4 Single 0) 25000000, Kernel (Worker 4 Single 1) 25000000,
        Kernel (Worker 4 Single 2) 25000000, Kernel (Worker 4 Single 3) 25000000,
        Kernel (Worker 4 Double 0) 25000000, Kernel (Worker 4 Double 1) 25000000,
        Kernel (Worker 4 Double 2) 25000000, Kernel (Worker 4 Double 3) 25000000,
        Output (Round_header 4), Output (Result_line Single ''64.00''),
        Output (Result_line Double ''32.00'')]
   \<and> standard_output Fully_buffered (main quiet_machine) = outputs (history (main quiet_machine))"
proof -
  have m: "avx512f quiet_machine"
    by (simp add: quiet_machine_def)
  have e: "elapsed_of quiet_machine = (\<lambda>c. 1 / 2)" "sint (hardware_concurrency quiet_machine) = 8"
    by (simp_all add: quiet_machine_def)
  have g: "\<And>x. fixed2 (fdiv binary64 x (Fin 1000000000)) = gflops x"
    by (simp add: gflops_def double_lit_giga)
  note phases = report_driver_phases [OF m]
  have st: "status (main quiet_machine) = Exited 0"
    using phases by (elim conjE)
  have out: "standard_output Fully_buffered (main quiet_machine) = outputs (history (main quiet_machine))"
    using phases by (elim conjE) (rule spec)
  have pr: "take 19 (history (main quiet_machine)) =
       [Output Banner, Output (Parameters 100000000 10), Output Single_header,
        Kernel (Single_thread Single) 100000000, Output (Result_line Single ''64.00''),
        Kernel (Single_thread Double) 100000000, Output (Result_line Double ''32.00''),
        Output (Hardware_threads 8)]
       @ round_log quiet_machine 4 25000000"
    unfolding phases [THEN conjunct1] e g quiet_single quiet_round_4
    by (simp add: ITERATIONS_def)
  show ?thesis
    unfolding pr quiet_round_4 using m st out by simp
qed

section \<open>Degenerate timing\<close>

lemma gflops_PInf: "gflops PInf = ''inf''"
  by (simp add: gflops_def double_lit_giga signed_inf_def fixed2_def)

lemma length_round_lines: "length (round_lines m N share) = 3"
  by (simp add: round_lines_def)

lemma main_first_result:
  assumes "avx512f m"
  shows "printed (main m) ! 3 = Result_line Single
      (gflops (returned (benchmark_of Single ITERATIONS (elapsed_of m (Single_thread Single)))))"
    and "length (printed (main m)) = 16" and "status (main m) = Exited 0"
  unfolding printed_main_supported [OF assms] status_main_supported [OF assms]
  by (simp_all add: length_round_lines benchmark_of_def ITERATIONS_def)

lemma ITERATIONS_pos: "0 < ITERATIONS"
  by (simp add: ITERATIONS_def)

text \<open>
  Claim C3, as amended. With an elapsed time of zero or below, the throughput
  computation raises nothing and guards nothing: for a positive iteration count it
  returns plus infinity when the elapsed time is zero, and minus infinity or a finite
  value that is not positive when the elapsed time is negative. No error state is
  reported: the driver prints the value as it is (\<open>inf\<close> for a first call whose elapsed
  time is zero) and the session goes on through all its phases to exit status 0.
\<close>

theorem nonpositive_elapsed_not_guarded:
  assumes "0 < n" and "el \<le> 0" and "avx512f m"
  shows "(el = 0 \<longrightarrow> returned (benchmark_of p n el) = PInf)
     \<and> (el < 0 \<longrightarrow> returned (benchmark_of p n el) = NInf
           \<or> (\<exists>v. returned (benchmark_of p n el) = Fin v \<and> v \<le> 0))
     \<and> (elapsed_of m (Single_thread Single) = 0 \<longrightarrow>
           printed (main m) ! 3 = Result_line Single ''inf'')
     \<and> length (printed (main m)) = 16
     \<and> status (main m) = Exited 0"
proof -
  have "el = 0 \<longrightarrow> returned (benchmark_of p n el) = PInf"
    using returned_zero_elapsed [OF assms(1)] by simp
  moreover have "el < 0 \<longrightarrow> returned (benchmark_of p n el) = NInf
           \<or> (\<exists>v. returned (benchmark_of p n el) = Fin v \<and> v \<le> 0)"
    using returned_negative_elapsed [OF assms(1)] by simp
  moreover have "elapsed_of m (Single_thread Single) = 0 \<longrightarrow>
           printed (main m) ! 3 = Result_line Single ''inf''"
    using main_first_result(1) [OF assms(3)] returned_zero_elapsed [OF ITERATIONS_pos, of Single]
    by (simp add: gflops_PInf)
  ultimately show ?thesis
    using main_first_result(2,3) [OF assms(3)] by simp
qed

theorem nonpositive_elapsed_witness:
  "(0 :: size_t) < 1000 \<and> (0 :: rat) \<le> 0 \<and> avx512f frozen_clock
   \<and> returned (benchmark_of Double 1000 0) = PInf
   \<and> printed (main frozen_clock) ! 3 = Result_line Single ''inf''
   \<and> status (main frozen_clock) = Exited 0"
proof -
  have h: "(0 :: size_t) < 1000" "(0 :: rat) \<le> 0" "avx512f frozen_clock"
    "elapsed_of frozen_clock (Single_thread Single) = 0"
    by (simp_all add: frozen_clock_def)
  from nonpositive_elapsed_not_guarded [OF h(1-3), of Double] h show ?thesis
    by simp
qed

text \<open>
  The claim as stated fails: 1000 iterations with an elapsed time of zero return plus
  infinity, with a negative elapsed time they return a negative throughput, and on a
  clock that does not advance the first result line reads \<open>inf\<close>.
\<close>

theorem degenerate_timing_counterexample:
  "returned (benchmark_avx512_sp 1000 0) = PInf
   \<and> returned (benchmark_avx512_dp 1000 (- (1 / 10000))) = Fin (- 1600000000)
   \<and> printed (main frozen_clock) ! 3 = Result_line Single ''inf''"
proof -
  have "sp_flops 1000 = Fin (of_nat (unat (1000 :: size_t) * 10 * 16 * 2))"
    by (rule sp_flops_exact) simp
  then have sp: "returned (benchmark_avx512_sp 1000 0) = PInf"
    by (simp add: returned_sp signed_inf_def)
  have "dp_flops 1000 = Fin (of_nat (unat (1000 :: size_t) * 10 * 8 * 2))"
    by (rule dp_flops_exact) simp
  moreover have "rnd binary64 (- of_nat 1600000000) = Fin (- of_nat 1600000000)"
    by (rule rnd_exact_neg_nat) (simp_all add: binary64_def)
  ultimately have dp: "returned (benchmark_avx512_dp 1000 (- (1 / 10000))) = Fin (- 1600000000)"
    by (simp add: returned_dp)
  have "sp_flops 100000000 = Fin (of_nat (unat (100000000 :: size_t) * 10 * 16 * 2))"
    by (rule sp_flops_exact) simp
  then have "returned (benchmark_of Single ITERATIONS 0) = PInf"
    by (simp add: benchmark_of_def returned_sp signed_inf_def ITERATIONS_def)
  moreover have "avx512f frozen_clock" "elapsed_of frozen_clock (Single_thread Single) = 0"
    by (simp_all add: frozen_clock_def)
  ultimately have "printed (main frozen_clock) ! 3 = Result_line Single ''inf''"
    using main_first_result(1) [of frozen_clock] by (simp add: gflops_PInf)
  with sp dp show ?thesis
    by simp
qed

section \<open>Aggregation of the worker results\<close>

lemma fadd_cert:
  assumes "pow2 k \<le> x + y" and "x + y < pow2 (k + 1)"
    and "e = max k (emin fmt) - (int (prec fmt) - 1)"
    and "\<bar>of_int m - (x + y) / pow2 e\<bar> < 1 / 2"
    and "of_int m * pow2 e < pow2 (emax fmt + 1)"
    and "v = of_int m * pow2 e"
  shows "fadd fmt (Fin x) (Fin y) = Fin v"
  using rnd_pos_eqI [OF assms(1-5)] assms(6) by simp

lemma fdiv_cert:
  assumes "pow2 k \<le> x / y" and "x / y < pow2 (k + 1)"
    and "e = max k (emin fmt) - (int (prec fmt) - 1)"
    and "\<bar>of_int m - (x / y) / pow2 e\<bar> < 1 / 2"
    and "of_int m * pow2 e < pow2 (emax fmt + 1)"
    and "v = of_int m * pow2 e"
  shows "fdiv fmt (Fin x) (Fin y) = Fin v"
proof -
  have "0 < x / y"
    using assms(1) pow2_pos [of k] by linarith
  then have "y \<noteq> 0"
    by auto
  then show ?thesis
    using rnd_pos_eqI [OF assms(1-5)] assms(6) by simp
qed

lemma worker_ids_4: "worker_ids 4 = [0, 1, 2, 3]"
  by (simp add: worker_ids_def upt_rec)

lemma share_flops: "sp_flops 25000000 = Fin 8000000000"
  using sp_flops_exact [of 25000000] by simp

lemma slow_fast:
  "returned (benchmark_of Single 25000000 (15 / 8)) = Fin (8947848533333333 / 2097152)"
  "returned (benchmark_of Single 25000000 (1 / 8)) = Fin 64000000000"
proof -
  have slow: "fdiv binary64 (Fin (8000000000)) (Fin (15 / 8)) = Fin (8947848533333333 / 2097152)"
    by (rule fdiv_cert [where k = 31 and e = "- 21" and m = 8947848533333333])
      (simp_all add: pow2_def binary64_def emin_def)
  have fast: "fdiv binary64 (Fin (8000000000)) (Fin (1 / 8)) = Fin (64000000000)"
    by (rule fdiv_cert [where k = 35 and e = "- 17" and m = 8388608000000000])
      (simp_all add: pow2_def binary64_def emin_def)
  show "returned (benchmark_of Single 25000000 (15 / 8)) = Fin (8947848533333333 / 2097152)"
    unfolding returned_flops precision.case share_flops by (rule slow)
  show "returned (benchmark_of Single 25000000 (1 / 8)) = Fin 64000000000"
    unfolding returned_flops precision.case share_flops by (rule fast)
qed

lemma results_slow_first:
  "worker_results slow_first 4 Single 25000000 =
     [Fin (8947848533333333 / 2097152), Fin (8947848533333333 / 2097152),
      Fin 64000000000, Fin 64000000000]"
  by (simp add: worker_results_def worker_ids_4 slow_first_def slow_fast)

lemma results_slow_last:
  "worker_results slow_last 4 Single 25000000 =
     [Fin 64000000000, Fin 64000000000,
      Fin (8947848533333333 / 2097152), Fin (8947848533333333 / 2097152)]"
  by (simp add: worker_results_def worker_ids_4 slow_last_def slow_fast)

lemma total_slow_first:
  "total_of [Fin (8947848533333333 / 2097152), Fin (8947848533333333 / 2097152),
      Fin 64000000000, Fin 64000000000] = Fin (8947848533333333 / 65536)"
proof -
  have a1: "fadd binary64 (Fin (0)) (Fin (8947848533333333 / 2097152)) = Fin (8947848533333333 / 2097152)"
    by (rule fadd_cert [where k = 31 and e = "- 21" and m = 8947848533333333])
      (simp_all add: pow2_def binary64_def emin_def)
  have a2: "fadd binary64 (Fin (8947848533333333 / 2097152)) (Fin (8947848533333333 / 2097152)) = Fin (8947848533333333 / 1048576)"
    by (rule fadd_cert [where k = 32 and e = "- 20" and m = 8947848533333333])
      (simp_all add: pow2_def binary64_def emin_def)
  have a3: "fadd binary64 (Fin (8947848533333333 / 1048576)) (Fin (64000000000)) = Fin (4753544533333333 / 65536)"
    by (rule fadd_cert [where k = 36 and e = "- 16" and m = 4753544533333333])
      (simp_all add: pow2_def binary64_def emin_def)
  have a4: "fadd binary64 (Fin (4753544533333333 / 65536)) (Fin (64000000000)) = Fin (8947848533333333 / 65536)"
    by (rule fadd_cert [where k = 36 and e = "- 16" and m = 8947848533333333])
      (simp_all add: pow2_def binary64_def emin_def)
  show ?thesis
    unfolding total_of_def foldl.simps a1 a2 a3 a4 ..
qed

lemma total_slow_last:
  "total_of [Fin 64000000000, Fin 64000000000,
      Fin (8947848533333333 / 2097152), Fin (8947848533333333 / 2097152)]
    = Fin (4473924266666667 / 32768)"
proof -
  have b1: "fadd binary64 (Fin (0)) (Fin (64000000000)) = Fin (64000000000)"
    by (rule fadd_cert [where k = 35 and e = "- 17" and m = 8388608000000000])
      (simp_all add: pow2_def binary64_def emin_def)
  have b2: "fadd binary64 (Fin (64000000000)) (Fin (64000000000)) = Fin (128000000000)"
    by (rule fadd_cert [where k = 36 and e = "- 16" and m = 8388608000000000])
      (simp_all add: pow2_def binary64_def emin_def)
  have b3: "fadd binary64 (Fin (128000000000)) (Fin (8947848533333333 / 2097152)) = Fin (8668228266666667 / 65536)"
    by (rule fadd_cert [where k = 36 and e = "- 16" and m = 8668228266666667])
      (simp_all add: pow2_def binary64_def emin_def)
  have b4: "fadd binary64 (Fin (8668228266666667 / 65536)) (Fin (8947848533333333 / 2097152)) = Fin (4473924266666667 / 32768)"
    by (rule fadd_cert [where k = 36 and e = "- 16" and m = 8947848533333334])
      (simp_all add: pow2_def binary64_def emin_def)
  show ?thesis
    unfolding total_of_def foldl.simps b1 b2 b3 b4 ..
qed

lemma worker_results_nth:
  "length (worker_results m N p share) = nat (sint N)"
  "i < nat (sint N) \<Longrightarrow>
     worker_results m N p share ! i = returned (benchmark_of p share (elapsed_of m (Worker N p i)))"
  by (simp_all add: worker_results_def worker_ids_def)

section \<open>Unsupported hardware\<close>

lemma main_unsupported:
  assumes "\<not> avx512f m"
  shows "main m =
    \<lparr>history = [Output Banner, Output (Parameters 100000000 10), Output Single_header,
            Kernel (Single_thread Single) 100000000],
     status = Killed Illegal_instruction\<rparr>"
  using assms
  by (simp add: main_def main_steps_def start_def print_def exit_with_def single_thread_def
      call_kernel_def run_kernel_def run_multithread_benchmark_def ITERATIONS_def UNROLL_def)

text \<open>
  Claim C6, as amended. On a processor that lacks the instructions the program makes no
  check of its own and prints no diagnostic. It inserts the banner, the parameters and
  the header of the single-thread test into its output stream, enters the first
  benchmark call and is killed in it by the processor's fault. It does not exit with a
  status of its own, prints no throughput, enters no second kernel call, and has no
  fallback path: every kernel call on such a processor faults. The program has not
  flushed the three items: they are lost with the process if standard output is fully
  buffered (a pipe or a file), and are on standard output only if the stream is line
  buffered (a terminal) or unbuffered.
\<close>

theorem unsupported_hardware_faults_in_first_kernel:
  assumes "\<not> avx512f m"
  shows "history (main m) =
       [Output Banner, Output (Parameters 100000000 10), Output Single_header,
        Kernel (Single_thread Single) ITERATIONS]
     \<and> printed (main m) = [Banner, Parameters 100000000 10, Single_header]
     \<and> calls (main m) = [(Single_thread Single, ITERATIONS)]
     \<and> status (main m) = Killed Illegal_instruction
     \<and> standard_output Fully_buffered (main m) = []
     \<and> standard_output Line_buffered (main m) = [Banner, Parameters 100000000 10, Single_header]
     \<and> standard_output Unbuffered (main m) = [Banner, Parameters 100000000 10, Single_header]
     \<and> (\<forall>c p n. run_kernel m c p n = Inl Illegal_instruction)"
proof -
  have st: "status (main m) = Killed Illegal_instruction"
    by (simp add: main_unsupported [OF assms])
  have pr: "printed (main m) = [Banner, Parameters 100000000 10, Single_header]"
    by (simp add: main_unsupported [OF assms] printed_def)
  have "standard_output Line_buffered (main m) = [Banner, Parameters 100000000 10, Single_header]"
    "standard_output Unbuffered (main m) = [Banner, Parameters 100000000 10, Single_header]"
    "standard_output Fully_buffered (main m) = []"
    using standard_output_killed [OF st] pr by simp_all
  moreover have "history (main m) =
       [Output Banner, Output (Parameters 100000000 10), Output Single_header,
        Kernel (Single_thread Single) ITERATIONS]"
    by (simp add: main_unsupported [OF assms] ITERATIONS_def)
  moreover have "calls (main m) = [(Single_thread Single, ITERATIONS)]"
    by (simp add: main_unsupported [OF assms] calls_def ITERATIONS_def)
  moreover have "\<forall>c p n. run_kernel m c p n = Inl Illegal_instruction"
    using assms by (simp add: run_kernel_def)
  ultimately show ?thesis
    using st pr by simp
qed

theorem unsupported_hardware_witness:
  "\<not> avx512f no_avx512
   \<and> history (main no_avx512) =
       [Output Banner, Output (Parameters 100000000 10), Output Single_header,
        Kernel (Single_thread Single) 100000000]
   \<and> status (main no_avx512) = Killed Illegal_instruction
   \<and> standard_output Fully_buffered (main no_avx512) = []"
proof -
  have h: "\<not> avx512f no_avx512"
    by (simp add: no_avx512_def)
  from unsupported_hardware_faults_in_first_kernel [OF h] h show ?thesis
    by (simp add: ITERATIONS_def)
qed

text \<open>
  The claim as stated fails: without the instructions the program has written three
  items, none of them a diagnostic, has entered a benchmark call, and ends killed by the
  fault there, not by an exit of its own at startup; on a fully buffered stream it
  leaves no output at all.
\<close>

theorem fail_fast_counterexample:
  "history (main no_avx512) =
       [Output Banner, Output (Parameters 100000000 10), Output Single_header,
        Kernel (Single_thread Single) 100000000]
   \<and> printed (main no_avx512) = [Banner, Parameters 100000000 10, Single_header]
   \<and> calls (main no_avx512) = [(Single_thread Single, 100000000)]
   \<and> status (main no_avx512) = Killed Illegal_instruction
   \<and> standard_output Fully_buffered (main no_avx512) = []"
  by (simp add: main_unsupported no_avx512_def printed_def calls_def standard_output_def
      insert_item_def)

section \<open>Properties of the interleavings\<close>

lemma exec_append:
  "exec m n s (evs @ evs') = (case exec m n s evs of None \<Rightarrow> None | Some s' \<Rightarrow> exec m n s' evs')"
  by (induction evs arbitrary: s) (auto split: option.splits)

lemma exec_snoc:
  "exec m n s (evs @ [ev]) = (case exec m n s evs of None \<Rightarrow> None | Some s' \<Rightarrow> apply_event m n s' ev)"
  by (simp add: exec_append split: option.splits)

lemma written_append: "written (evs @ evs') = written evs @ written evs'"
  by (induction evs rule: written.induct) simp_all

lemma round_inv_init: "round_inv m n sh [] (init_round n sh)"
  by (simp add: round_inv_def init_round_def phase_of_def finished_worker_def)

lemma round_invD:
  assumes "round_inv m n sh evs s"
  shows "thread_share s = sh"
    and "\<And>p. length (result_slots s p) = nat (sint n)"
    and "\<And>p i. workers s (p, i) \<noteq> Idle \<Longrightarrow> i < nat (sint n) \<and> Spawn p i sh \<in> set evs"
    and "\<And>p i. (p, i) \<in> set (written evs) \<Longrightarrow> finished_worker s p i"
    and "\<And>p i. finished_worker s p i \<Longrightarrow>
             Write p i i (worker_value m n sh p i) \<in> set evs
             \<and> result_slots s p ! i = worker_value m n sh p i"
    and "\<And>p i. workers s (p, i) = Joined \<Longrightarrow> Join p i \<in> set evs"
    and "\<And>p i k v. Write p i k v \<in> set evs \<Longrightarrow> k = i \<and> i < nat (sint n)"
    and "\<And>p i sh'. Spawn p i sh' \<in> set evs \<Longrightarrow> sh' = sh"
    and "distinct (written evs)"
    and "phase_of (pc s) \<noteq> Some Single \<Longrightarrow>
            (\<exists>t. Sum Single t \<in> set evs) \<and> totals s Single \<noteq> None
            \<and> (\<forall>i < nat (sint n). workers s (Single, i) = Joined)"
    and "\<And>i. phase_of (pc s) = Some Single \<Longrightarrow> workers s (Double, i) = Idle"
    and "\<And>p i j. pc s = Spawning p i \<Longrightarrow> i \<le> j \<Longrightarrow> workers s (p, j) = Idle"
    and "\<And>p j. pc s = Joining p j \<Longrightarrow>
            j < nat (sint n) \<and> (\<forall>i < j. workers s (p, i) = Joined)"
    and "\<And>p i. pc s = Summing p \<Longrightarrow> i < nat (sint n) \<Longrightarrow> workers s (p, i) = Joined"
proof -
  note I = assms [unfolded round_inv_def]
  note I1 = I [THEN conjunct1]
  note I2 = I [THEN conjunct2, THEN conjunct1]
  note I3 = I [THEN conjunct2, THEN conjunct2, THEN conjunct1]
  note I4 = I [THEN conjunct2, THEN conjunct2, THEN conjunct2, THEN conjunct1]
  note I5 = I [THEN conjunct2, THEN conjunct2, THEN conjunct2, THEN conjunct2, THEN conjunct1]
  note I6 = I [THEN conjunct2, THEN conjunct2, THEN conjunct2, THEN conjunct2, THEN conjunct2, THEN conjunct1]
  note I7 = I [THEN conjunct2, THEN conjunct2, THEN conjunct2, THEN conjunct2, THEN conjunct2, THEN conjunct2, THEN conjunct1]
  note I8 = I [THEN conjunct2, THEN conjunct2, THEN conjunct2, THEN conjunct2, THEN conjunct2, THEN conjunct2, THEN conjunct2, THEN conjunct1]
  note I9 = I [THEN conjunct2, THEN conjunct2, THEN conjunct2, THEN conjunct2, THEN conjunct2, THEN conjunct2, THEN conjunct2, THEN conjunct2, THEN conjunct1]
  note I10 = I [THEN conjunct2, THEN conjunct2, THEN conjunct2, THEN conjunct2, THEN conjunct2, THEN conjunct2, THEN conjunct2, THEN conjunct2, THEN conjunct2, THEN conjunct1]
  note I11 = I [THEN conjunct2, THEN conjunct2, THEN conjunct2, THEN conjunct2, THEN conjunct2, THEN conjunct2, THEN conjunct2, THEN conjunct2, THEN conjunct2, THEN conjunct2, THEN conjunct1]
  note I12 = I [THEN conjunct2, THEN conjunct2, THEN conjunct2, THEN conjunct2, THEN conjunct2, THEN conjunct2, THEN conjunct2, THEN conjunct2, THEN conjunct2, THEN conjunct2, THEN conjunct2, THEN conjunct1]
  note I13 = I [THEN conjunct2, THEN conjunct2, THEN conjunct2, THEN conjunct2, THEN conjunct2, THEN conjunct2, THEN conjunct2, THEN conjunct2, THEN conjunct2, THEN conjunct2, THEN conjunct2, THEN conjunct2, THEN conjunct1]
  note I14 = I [THEN conjunct2, THEN conjunct2, THEN conjunct2, THEN conjunct2, THEN conjunct2, THEN conjunct2, THEN conjunct2, THEN conjunct2, THEN conjunct2, THEN conjunct2, THEN conjunct2, THEN conjunct2, THEN conjunct2]
  show "thread_share s = sh" by (rule I1)
  show "length (result_slots s p) = nat (sint n)" for p using I2 by simp
  show "i < nat (sint n) \<and> Spawn p i sh \<in> set evs" if "workers s (p, i) \<noteq> Idle" for p i
    using I3 that by blast
  show "finished_worker s p i" if "(p, i) \<in> set (written evs)" for p i
    using I4 that by blast
  show "Write p i i (worker_value m n sh p i) \<in> set evs
             \<and> result_slots s p ! i = worker_value m n sh p i" if "finished_worker s p i" for p i
    using I5 that by blast
  show "Join p i \<in> set evs" if "workers s (p, i) = Joined" for p i
    using I6 that by blast
  show "k = i \<and> i < nat (sint n)" if "Write p i k v \<in> set evs" for p i k v
    using I7 that by blast
  show "sh' = sh" if "Spawn p i sh' \<in> set evs" for p i sh'
    using I8 that by blast
  show "distinct (written evs)" by (rule I9)
  show "(\<exists>t. Sum Single t \<in> set evs) \<and> totals s Single \<noteq> None
            \<and> (\<forall>i < nat (sint n). workers s (Single, i) = Joined)"
    if "phase_of (pc s) \<noteq> Some Single"
    using I10 that by (rule mp)
  show "workers s (Double, i) = Idle" if "phase_of (pc s) = Some Single" for i
    using I11 that by blast
  show "workers s (p, j) = Idle" if "pc s = Spawning p i" "i \<le> j" for p i j
    using I12 that by blast
  show "j < nat (sint n) \<and> (\<forall>i < j. workers s (p, i) = Joined)" if "pc s = Joining p j" for p j
    using I13 that by blast
  show "workers s (p, i) = Joined" if "pc s = Summing p" "i < nat (sint n)" for p i
    using I14 that by blast
qed

lemma inv_spawn:
  assumes inv: "round_inv m n sh evs s" and step: "apply_event m n s (Spawn p i sh') = Some s'"
  shows "round_inv m n sh (evs @ [Spawn p i sh']) s'"
proof -
  from step have en: "pc s = Spawning p i" "i < nat (sint n)" "sh' = thread_share s"
    and s': "s' = s\<lparr>pc := (if Suc i = nat (sint n) then Joining p 0 else Spawning p (Suc i)),
                   workers := (workers s)((p, i) := Running_worker)\<rparr>"
    by (auto split: if_splits)
  note D = round_invD [OF inv]
  have idle: "workers s (p, i) = Idle"
    using D(12) [OF en(1)] by simp
  have unfinished: "\<not> finished_worker s p i"
    using idle by (simp add: finished_worker_def)
  have fin: "finished_worker s' q j = finished_worker s q j" for q j
    using unfinished by (auto simp: s' finished_worker_def)
  have ph: "phase_of (pc s') = Some p" "phase_of (pc s) = Some p"
    by (simp_all add: s' en phase_of_def)
  show ?thesis
    unfolding round_inv_def
  proof (intro conjI allI impI)
    show "thread_share s' = sh" using D(1) by (simp add: s')
    show "length (result_slots s' q) = nat (sint n)" for q using D(2) by (simp add: s')
    show "j < nat (sint n)" if "workers s' (q, j) \<noteq> Idle" for q j
      using that D(3) [of q j] en by (auto simp: s' split: if_splits)
    show "Spawn q j sh \<in> set (evs @ [Spawn p i sh'])" if "workers s' (q, j) \<noteq> Idle" for q j
      using that D(3) [of q j] D(1) en by (auto simp: s' split: if_splits)
    show "finished_worker s' q j" if "(q, j) \<in> set (written (evs @ [Spawn p i sh']))" for q j
      using that D(4) [of q j] by (simp add: written_append fin)
    show "Write q j j (worker_value m n sh q j) \<in> set (evs @ [Spawn p i sh'])"
      if "finished_worker s' q j" for q j
      using that D(5) [of q j] by (simp add: fin)
    show "result_slots s' q ! j = worker_value m n sh q j" if "finished_worker s' q j" for q j
      using that D(5) [of q j] by (simp add: fin) (simp add: s')
    show "Join q j \<in> set (evs @ [Spawn p i sh'])" if "workers s' (q, j) = Joined" for q j
      using that D(6) [of q j] by (auto simp: s' split: if_splits)
    show "k = j" if "Write q j k v \<in> set (evs @ [Spawn p i sh'])" for q j k v
      using that D(7) [of q j k v] by simp
    show "j < nat (sint n)" if "Write q j k v \<in> set (evs @ [Spawn p i sh'])" for q j k v
      using that D(7) [of q j k v] by simp
    show "sh'' = sh" if "Spawn q j sh'' \<in> set (evs @ [Spawn p i sh'])" for q j sh''
      using that D(8) [of q j sh''] D(1) en by auto
    show "distinct (written (evs @ [Spawn p i sh']))"
      using D(9) by (simp add: written_append)
    show "\<exists>t. Sum Single t \<in> set (evs @ [Spawn p i sh'])" if "phase_of (pc s') \<noteq> Some Single"
      using that D(10) ph by auto
    show "totals s' Single \<noteq> None" if "phase_of (pc s') \<noteq> Some Single"
      using that D(10) ph by (auto simp: s')
    show "workers s' (Single, j) = Joined"
      if "phase_of (pc s') \<noteq> Some Single" "j < nat (sint n)" for j
      using that D(10) ph by (auto simp: s')
    show "workers s' (Double, j) = Idle" if "phase_of (pc s') = Some Single" for j
      using that D(11) [of j] ph by (auto simp: s')
    show "workers s' (q, k) = Idle" if "pc s' = Spawning q j" "j \<le> k" for q j k
      using that D(12) [OF en(1), of k] by (auto simp: s' split: if_splits)
    show "j < nat (sint n)" if "pc s' = Joining q j" for q j
      using that en by (auto simp: s' split: if_splits)
    show "workers s' (q, k) = Joined" if "pc s' = Joining q j" "k < j" for q j k
      using that by (auto simp: s' split: if_splits)
    show "workers s' (q, j) = Joined" if "pc s' = Summing q" "j < nat (sint n)" for q j
      using that by (auto simp: s' split: if_splits)
  qed
qed


lemma inv_write:
  assumes inv: "round_inv m n sh evs s" and step: "apply_event m n s (Write p i k v) = Some s'"
  shows "round_inv m n sh (evs @ [Write p i k v]) s'"
proof -
  from step have en: "workers s (p, i) = Running_worker" "k = i"
      "v = returned (benchmark_of p (thread_share s) (elapsed_of m (Worker n p i)))"
    and s': "s' = s\<lparr>result_slots := (result_slots s)(p := (result_slots s p)[k := v]),
                   workers := (workers s)((p, i) := Done)\<rparr>"
    by (auto split: if_splits)
  note D = round_invD [OF inv]
  have v: "v = worker_value m n sh p i"
    using en(3) D(1) by (simp add: worker_value_def)
  have i: "i < nat (sint n)"
    using D(3) [of p i] en(1) by simp
  have fresh: "(p, i) \<notin> set (written evs)"
    using D(4) [of p i] en(1) by (auto simp: finished_worker_def)
  have fin: "finished_worker s' q j = (finished_worker s q j \<or> (q, j) = (p, i))" for q j
    using en(1) by (auto simp: s' finished_worker_def)
  have same: "workers s' (q, j) = Idle \<longleftrightarrow> workers s (q, j) = Idle"
    "workers s' (q, j) = Joined \<longleftrightarrow> workers s (q, j) = Joined" for q j
    using en(1) by (auto simp: s')
  have pc: "pc s' = pc s" by (simp add: s')
  show ?thesis
    unfolding round_inv_def
  proof (intro conjI allI impI)
    show "thread_share s' = sh" using D(1) by (simp add: s')
    show "length (result_slots s' q) = nat (sint n)" for q using D(2) by (simp add: s')
    show "j < nat (sint n)" if "workers s' (q, j) \<noteq> Idle" for q j
      using that D(3) [of q j] by (simp add: same)
    show "Spawn q j sh \<in> set (evs @ [Write p i k v])" if "workers s' (q, j) \<noteq> Idle" for q j
      using that D(3) [of q j] by (simp add: same)
    show "finished_worker s' q j" if "(q, j) \<in> set (written (evs @ [Write p i k v]))" for q j
      using that D(4) [of q j] en(2) by (auto simp: written_append fin)
    show "Write q j j (worker_value m n sh q j) \<in> set (evs @ [Write p i k v])"
      if "finished_worker s' q j" for q j
      using that D(5) [of q j] en(2) v by (auto simp: fin)
    show "result_slots s' q ! j = worker_value m n sh q j" if "finished_worker s' q j" for q j
    proof (cases "(q, j) = (p, i)")
      case True
      then show ?thesis
        using i D(2) [of p] en(2) v by (simp add: s')
    next
      case False
      then have "finished_worker s q j"
        using that by (auto simp: fin)
      then have "result_slots s q ! j = worker_value m n sh q j"
        using D(5) [of q j] by simp
      then show ?thesis
        using False en(2) by (auto simp: s')
    qed
    show "Join q j \<in> set (evs @ [Write p i k v])" if "workers s' (q, j) = Joined" for q j
      using that D(6) [of q j] by (simp add: same)
    show "k' = j" if "Write q j k' w \<in> set (evs @ [Write p i k v])" for q j k' w
      using that D(7) [of q j k' w] en(2) by auto
    show "j < nat (sint n)" if "Write q j k' w \<in> set (evs @ [Write p i k v])" for q j k' w
      using that D(7) [of q j k' w] i by auto
    show "sh'' = sh" if "Spawn q j sh'' \<in> set (evs @ [Write p i k v])" for q j sh''
      using that D(8) [of q j sh''] by simp
    show "distinct (written (evs @ [Write p i k v]))"
      using D(9) fresh en(2) by (simp add: written_append)
    show "\<exists>t. Sum Single t \<in> set (evs @ [Write p i k v])" if "phase_of (pc s') \<noteq> Some Single"
      using that D(10) by (auto simp: pc)
    show "totals s' Single \<noteq> None" if "phase_of (pc s') \<noteq> Some Single"
      using that D(10) by (auto simp: pc) (simp add: s')
    show "workers s' (Single, j) = Joined"
      if "phase_of (pc s') \<noteq> Some Single" "j < nat (sint n)" for j
      using that D(10) by (simp add: pc same)
    show "workers s' (Double, j) = Idle" if "phase_of (pc s') = Some Single" for j
      using that D(11) [of j] by (simp add: pc same)
    show "workers s' (q, k') = Idle" if "pc s' = Spawning q j" "j \<le> k'" for q j k'
      using that D(12) [of q j k'] by (simp add: pc same)
    show "j < nat (sint n)" if "pc s' = Joining q j" for q j
      using that D(13) [of q j] by (simp add: pc)
    show "workers s' (q, k') = Joined" if "pc s' = Joining q j" "k' < j" for q j k'
      using that D(13) [of q j] by (simp add: pc same)
    show "workers s' (q, j) = Joined" if "pc s' = Summing q" "j < nat (sint n)" for q j
      using that D(14) [of q j] by (simp add: pc same)
  qed
qed

lemma inv_join:
  assumes inv: "round_inv m n sh evs s" and step: "apply_event m n s (Join p j) = Some s'"
  shows "round_inv m n sh (evs @ [Join p j]) s'"
proof -
  from step have en: "pc s = Joining p j" "workers s (p, j) = Done"
    and s': "s' = s\<lparr>pc := (if Suc j = nat (sint n) then Summing p else Joining p (Suc j)),
                   workers := (workers s)((p, j) := Joined)\<rparr>"
    by (auto split: if_splits)
  note D = round_invD [OF inv]
  have j: "j < nat (sint n)" and before: "\<And>i. i < j \<Longrightarrow> workers s (p, i) = Joined"
    using D(13) [OF en(1)] by simp_all
  have fin: "finished_worker s' q i = finished_worker s q i" for q i
    using en(2) by (auto simp: s' finished_worker_def)
  have idle: "workers s' (q, i) = Idle \<longleftrightarrow> workers s (q, i) = Idle" for q i
    using en(2) by (auto simp: s')
  have joined: "workers s' (q, i) = Joined \<longleftrightarrow> workers s (q, i) = Joined \<or> (q, i) = (p, j)"
    for q i
    by (auto simp: s')
  have ph: "phase_of (pc s') = Some p" "phase_of (pc s) = Some p"
    by (simp_all add: s' en phase_of_def)
  show ?thesis
    unfolding round_inv_def
  proof (intro conjI allI impI)
    show "thread_share s' = sh" using D(1) by (simp add: s')
    show "length (result_slots s' q) = nat (sint n)" for q using D(2) by (simp add: s')
    show "i < nat (sint n)" if "workers s' (q, i) \<noteq> Idle" for q i
      using that D(3) [of q i] by (simp add: idle)
    show "Spawn q i sh \<in> set (evs @ [Join p j])" if "workers s' (q, i) \<noteq> Idle" for q i
      using that D(3) [of q i] by (simp add: idle)
    show "finished_worker s' q i" if "(q, i) \<in> set (written (evs @ [Join p j]))" for q i
      using that D(4) [of q i] by (simp add: written_append fin)
    show "Write q i i (worker_value m n sh q i) \<in> set (evs @ [Join p j])"
      if "finished_worker s' q i" for q i
      using that D(5) [of q i] by (simp add: fin)
    show "result_slots s' q ! i = worker_value m n sh q i" if "finished_worker s' q i" for q i
      using that D(5) [of q i] by (simp add: fin) (simp add: s')
    show "Join q i \<in> set (evs @ [Join p j])" if "workers s' (q, i) = Joined" for q i
      using that D(6) [of q i] by (auto simp: joined)
    show "k = i" if "Write q i k w \<in> set (evs @ [Join p j])" for q i k w
      using that D(7) [of q i k w] by simp
    show "i < nat (sint n)" if "Write q i k w \<in> set (evs @ [Join p j])" for q i k w
      using that D(7) [of q i k w] by simp
    show "sh'' = sh" if "Spawn q i sh'' \<in> set (evs @ [Join p j])" for q i sh''
      using that D(8) [of q i sh''] by simp
    show "distinct (written (evs @ [Join p j]))"
      using D(9) by (simp add: written_append)
    show "\<exists>t. Sum Single t \<in> set (evs @ [Join p j])" if "phase_of (pc s') \<noteq> Some Single"
      using that D(10) ph by auto
    show "totals s' Single \<noteq> None" if "phase_of (pc s') \<noteq> Some Single"
      using that D(10) ph by (auto simp: s')
    show "workers s' (Single, i) = Joined"
      if "phase_of (pc s') \<noteq> Some Single" "i < nat (sint n)" for i
      using that D(10) ph by (auto simp: joined)
    show "workers s' (Double, i) = Idle" if "phase_of (pc s') = Some Single" for i
      using that D(11) [of i] ph by (simp add: idle)
    show "workers s' (q, k) = Idle" if "pc s' = Spawning q i" "i \<le> k" for q i k
      using that by (auto simp: s' split: if_splits)
    show "i < nat (sint n)" if "pc s' = Joining q i" for q i
      using that j by (auto simp: s' split: if_splits)
    show "workers s' (q, k) = Joined" if "pc s' = Joining q i" "k < i" for q i k
    proof -
      from that(1) have "q = p" "i = Suc j"
        by (auto simp: s' split: if_splits)
      then show ?thesis
        using that(2) before [of k] by (cases "k = j") (auto simp: joined)
    qed
    show "workers s' (q, i) = Joined" if "pc s' = Summing q" "i < nat (sint n)" for q i
    proof -
      from that(1) have "q = p" "Suc j = nat (sint n)"
        using en(1) by (auto simp: s' split: if_splits)
      then show ?thesis
        using that(2) before [of i] by (cases "i = j") (auto simp: joined)
    qed
  qed
qed

lemma inv_sum:
  assumes inv: "round_inv m n sh evs s" and step: "apply_event m n s (Sum p t) = Some s'"
  shows "round_inv m n sh (evs @ [Sum p t]) s'"
proof -
  from step have en: "pc s = Summing p" "t = total_of (result_slots s p)"
    and s': "s' = s\<lparr>totals := (totals s)(p := Some t),
                   pc := (case p of Single \<Rightarrow> Spawning Double 0 | Double \<Rightarrow> Finished)\<rparr>"
    by (auto split: if_splits)
  note D = round_invD [OF inv]
  have w: "workers s' = workers s" and r: "result_slots s' = result_slots s"
    by (simp_all add: s')
  have fin: "finished_worker s' q i = finished_worker s q i" for q i
    by (simp add: finished_worker_def w)
  have ph: "phase_of (pc s) = Some p"
    by (simp add: en phase_of_def)
  have ph': "phase_of (pc s') \<noteq> Some Single"
    by (cases p) (simp_all add: s' phase_of_def)
  show ?thesis
    unfolding round_inv_def
  proof (intro conjI allI impI)
    show "thread_share s' = sh" using D(1) by (simp add: s')
    show "length (result_slots s' q) = nat (sint n)" for q using D(2) by (simp add: r)
    show "i < nat (sint n)" if "workers s' (q, i) \<noteq> Idle" for q i
      using that D(3) [of q i] by (simp add: w)
    show "Spawn q i sh \<in> set (evs @ [Sum p t])" if "workers s' (q, i) \<noteq> Idle" for q i
      using that D(3) [of q i] by (simp add: w)
    show "finished_worker s' q i" if "(q, i) \<in> set (written (evs @ [Sum p t]))" for q i
      using that D(4) [of q i] by (simp add: written_append fin)
    show "Write q i i (worker_value m n sh q i) \<in> set (evs @ [Sum p t])"
      if "finished_worker s' q i" for q i
      using that D(5) [of q i] by (simp add: fin)
    show "result_slots s' q ! i = worker_value m n sh q i" if "finished_worker s' q i" for q i
      using that D(5) [of q i] by (simp add: fin r)
    show "Join q i \<in> set (evs @ [Sum p t])" if "workers s' (q, i) = Joined" for q i
      using that D(6) [of q i] by (simp add: w)
    show "k = i" if "Write q i k v \<in> set (evs @ [Sum p t])" for q i k v
      using that D(7) [of q i k v] by simp
    show "i < nat (sint n)" if "Write q i k v \<in> set (evs @ [Sum p t])" for q i k v
      using that D(7) [of q i k v] by simp
    show "sh'' = sh" if "Spawn q i sh'' \<in> set (evs @ [Sum p t])" for q i sh''
      using that D(8) [of q i sh''] by simp
    show "distinct (written (evs @ [Sum p t]))"
      using D(9) by (simp add: written_append)
    show "\<exists>u. Sum Single u \<in> set (evs @ [Sum p t])"
      using D(10) ph by (cases p) auto
    show "totals s' Single \<noteq> None"
      using D(10) ph by (cases p) (auto simp: s')
    show "workers s' (Single, i) = Joined" if "i < nat (sint n)" for i
      using that D(10) D(14) [OF en(1) that] ph by (cases p) (auto simp: w)
    show "workers s' (Double, i) = Idle" if "phase_of (pc s') = Some Single" for i
      using that ph' by simp
    show "workers s' (q, k) = Idle" if "pc s' = Spawning q i" "i \<le> k" for q i k
      using that D(11) [of k] ph by (cases p) (auto simp: s')
    show "i < nat (sint n)" if "pc s' = Joining q i" for q i
      using that by (cases p) (simp_all add: s')
    show "workers s' (q, k) = Joined" if "pc s' = Joining q i" "k < i" for q i k
      using that by (cases p) (simp_all add: s')
    show "workers s' (q, i) = Joined" if "pc s' = Summing q" "i < nat (sint n)" for q i
      using that by (cases p) (simp_all add: s')
  qed
qed

lemma inv_step:
  assumes "round_inv m n sh evs s" and "apply_event m n s ev = Some s'"
  shows "round_inv m n sh (evs @ [ev]) s'"
  using assms by (cases ev) (auto intro: inv_spawn inv_write inv_join inv_sum)

lemma inv_exec:
  assumes "exec m n (init_round n sh) evs = Some s"
  shows "round_inv m n sh evs s"
  using assms
proof (induction evs arbitrary: s rule: rev_induct)
  case Nil
  then show ?case by (auto simp: round_inv_init)
next
  case (snoc ev evs)
  then obtain s0 where "exec m n (init_round n sh) evs = Some s0" "apply_event m n s0 ev = Some s"
    by (auto simp: exec_snoc split: option.splits)
  then show ?case
    using snoc.IH inv_step by blast
qed

lemma exec_split:
  assumes "exec m n s0 (pre @ ev # post) = Some s"
  obtains s1 s2 where "exec m n s0 pre = Some s1" "apply_event m n s1 ev = Some s2"
  using assms by (auto simp: exec_append split: option.splits)

lemma round_run_inv:
  assumes "round_run m n evs s"
  obtains sh where "iterations_per_thread n = Some sh" "0 \<le> sint n"
    "exec m n (init_round n sh) evs = Some s" "round_inv m n sh evs s"
  using assms inv_exec by (auto simp: round_run_def split: option.splits)

lemma worker_results_alt:
  "worker_results m n p sh = map (worker_value m n sh p) [0 ..< nat (sint n)]"
  by (simp add: worker_results_def worker_value_def worker_ids_def)

lemma results_when_all_finished:
  assumes "round_inv m n sh evs s" and "\<And>i. i < nat (sint n) \<Longrightarrow> workers s (p, i) = Joined"
  shows "result_slots s p = worker_results m n p sh"
proof (rule nth_equalityI)
  show "length (result_slots s p) = length (worker_results m n p sh)"
    using round_invD(2) [OF assms(1)] by (simp add: worker_results_alt)
next
  fix i assume "i < length (result_slots s p)"
  then have i: "i < nat (sint n)"
    using round_invD(2) [OF assms(1)] by simp
  then have "finished_worker s p i"
    using assms(2) by (simp add: finished_worker_def)
  then show "result_slots s p ! i = worker_results m n p sh ! i"
    using round_invD(5) [OF assms(1), of p i] i by (simp add: worker_results_alt)
qed

lemma before_sum:
  assumes run: "round_run m n evs s" and evs: "evs = pre @ Sum p t # post"
  shows "\<exists>sh s1. iterations_per_thread n = Some sh \<and> round_inv m n sh pre s1
      \<and> t = total_of (result_slots s1 p) \<and> (\<forall>j < nat (sint n). workers s1 (p, j) = Joined)"
proof -
  from run obtain sh where sh: "iterations_per_thread n = Some sh"
    and ex: "exec m n (init_round n sh) evs = Some s"
    by (rule round_run_inv)
  from ex obtain s1 s2 where s1: "exec m n (init_round n sh) pre = Some s1"
    and en: "apply_event m n s1 (Sum p t) = Some s2"
    unfolding evs by (rule exec_split)
  have inv: "round_inv m n sh pre s1"
    using s1 by (rule inv_exec)
  from en have pc: "pc s1 = Summing p" and t: "t = total_of (result_slots s1 p)"
    by (auto split: if_splits)
  have "\<forall>j < nat (sint n). workers s1 (p, j) = Joined"
    using round_invD(14) [OF inv pc] by simp
  with sh inv t show ?thesis
    by blast
qed

lemma sum_after_joins:
  assumes run: "round_run m n evs s" and evs: "evs = pre @ Sum p t # post"
    and i: "i < nat (sint n)"
  shows "Join p i \<in> set pre \<and> (\<exists>v. Write p i i v \<in> set pre)"
proof -
  from before_sum [OF run evs] obtain sh s1 where inv: "round_inv m n sh pre s1"
    and joined: "\<And>j. j < nat (sint n) \<Longrightarrow> workers s1 (p, j) = Joined"
    by blast
  have "Join p i \<in> set pre"
    using round_invD(6) [OF inv joined [OF i]] .
  moreover have "finished_worker s1 p i"
    using joined [OF i] by (simp add: finished_worker_def)
  then have "\<exists>v. Write p i i v \<in> set pre"
    using round_invD(5) [OF inv, of p i] by blast
  ultimately show ?thesis ..
qed

lemma sum_is_total:
  assumes run: "round_run m n evs s" and evs: "evs = pre @ Sum p t # post"
  shows "\<exists>sh. iterations_per_thread n = Some sh \<and> t = total_of (worker_results m n p sh)"
proof -
  from before_sum [OF run evs] obtain sh s1 where sh: "iterations_per_thread n = Some sh"
    and inv: "round_inv m n sh pre s1" and t: "t = total_of (result_slots s1 p)"
    and joined: "\<And>j. j < nat (sint n) \<Longrightarrow> workers s1 (p, j) = Joined"
    by blast
  have "result_slots s1 p = worker_results m n p sh"
    using inv joined by (rule results_when_all_finished)
  with sh t show ?thesis
    by simp
qed

lemma double_after_single:
  assumes run: "round_run m n evs s" and evs: "evs = pre @ Spawn Double i sh # post"
  shows "\<exists>t. Sum Single t \<in> set pre"
    and "j < nat (sint n) \<Longrightarrow> Spawn Single j sh \<in> set pre \<and> Join Single j \<in> set pre"
proof -
  from run obtain sh0 where ex: "exec m n (init_round n sh0) evs = Some s"
    by (rule round_run_inv)
  from ex obtain s1 s2 where s1: "exec m n (init_round n sh0) pre = Some s1"
    and en: "apply_event m n s1 (Spawn Double i sh) = Some s2"
    unfolding evs by (rule exec_split)
  have inv: "round_inv m n sh0 pre s1"
    using s1 by (rule inv_exec)
  from en have pc: "pc s1 = Spawning Double i" and sh: "sh = thread_share s1"
    by (auto split: if_splits)
  then have sh': "sh = sh0"
    using round_invD(1) [OF inv] by simp
  have ph: "phase_of (pc s1) \<noteq> Some Single"
    by (simp add: pc phase_of_def)
  note after = round_invD(10) [OF inv ph]
  show "\<exists>t. Sum Single t \<in> set pre"
    using after by simp
  show "Spawn Single j sh \<in> set pre \<and> Join Single j \<in> set pre" if "j < nat (sint n)"
  proof -
    have "workers s1 (Single, j) = Joined"
      using after that by simp
    then show ?thesis
      using round_invD(3) [OF inv, of Single j] round_invD(6) [OF inv, of Single j] sh'
      by simp
  qed
qed

lemma example_round_runs:
  "\<exists>s. round_run quiet_machine 4 example_round s \<and> pc s = Finished
       \<and> totals s Single = Some (Fin 64000000000) \<and> totals s Double = Some (Fin 32000000000)"
  by (simp add: round_run_def shares_of_levels example_round_def init_round_def
      quiet_machine_def quiet_values quiet_totals eval_nat_numeral)

text \<open>
  Claim C9. In every round, under every interleaving of the workers: both result vectors
  have exactly \<open>N\<close> slots in the initial state, before any worker is spawned, and keep
  this length; every write is by a worker with an id \<open>i\<close> below \<open>N\<close> to the slot \<open>i\<close>
  itself, and no slot of a vector is written twice, so no two workers write the same
  slot; and when the result_slots of a precision are summed, every one of its \<open>N\<close> workers
  has written its slot and has been joined. The sum is then the total of the values of
  the workers in the order of their ids, whatever the interleaving was.
\<close>

theorem workers_write_disjoint_slots:
  assumes "round_run m n evs s"
  shows "(\<forall>sh p. length (result_slots (init_round n sh) p) = nat (sint n))
     \<and> (\<forall>p. length (result_slots s p) = nat (sint n))
     \<and> (\<forall>p i k v. Write p i k v \<in> set evs \<longrightarrow> k = i \<and> i < nat (sint n))
     \<and> distinct (written evs)
     \<and> (\<forall>pre p t post i. evs = pre @ Sum p t # post \<longrightarrow> i < nat (sint n) \<longrightarrow>
            Join p i \<in> set pre \<and> (\<exists>v. Write p i i v \<in> set pre))
     \<and> (\<forall>pre p t post. evs = pre @ Sum p t # post \<longrightarrow>
            (\<exists>sh. iterations_per_thread n = Some sh
               \<and> t = total_of (worker_results m n p sh)))"
proof -
  from assms obtain sh where inv: "round_inv m n sh evs s"
    by (rule round_run_inv)
  have "\<forall>sh p. length (result_slots (init_round n sh) p) = nat (sint n)"
    by (simp add: init_round_def)
  moreover have "\<forall>p. length (result_slots s p) = nat (sint n)"
    using round_invD(2) [OF inv] by simp
  moreover have "\<forall>p i k v. Write p i k v \<in> set evs \<longrightarrow> k = i \<and> i < nat (sint n)"
    using round_invD(7) [OF inv] by blast
  moreover have "distinct (written evs)"
    using round_invD(9) [OF inv] .
  moreover have "\<forall>pre p t post i. evs = pre @ Sum p t # post \<longrightarrow> i < nat (sint n) \<longrightarrow>
            Join p i \<in> set pre \<and> (\<exists>v. Write p i i v \<in> set pre)"
  proof (intro allI impI)
    fix pre p t post i
    assume "evs = pre @ Sum p t # post" and "i < nat (sint n)"
    with assms show "Join p i \<in> set pre \<and> (\<exists>v. Write p i i v \<in> set pre)"
      by (rule sum_after_joins)
  qed
  moreover have "\<forall>pre p t post. evs = pre @ Sum p t # post \<longrightarrow>
            (\<exists>sh. iterations_per_thread n = Some sh
               \<and> t = total_of (worker_results m n p sh))"
  proof (intro allI impI)
    fix pre p t post
    assume "evs = pre @ Sum p t # post"
    with assms show "\<exists>sh. iterations_per_thread n = Some sh
        \<and> t = total_of (worker_results m n p sh)"
      by (rule sum_is_total)
  qed
  ultimately show ?thesis
    by (intro conjI)
qed

theorem workers_write_disjoint_slots_witness:
  "(\<exists>s. round_run quiet_machine 4 example_round s)
   \<and> written example_round
       = [(Single, 1), (Single, 0), (Single, 3), (Single, 2),
          (Double, 3), (Double, 2), (Double, 1), (Double, 0)]
   \<and> distinct (written example_round)
   \<and> Join Single 3 \<in> set (take 12 example_round)"
proof -
  from example_round_runs obtain s where run: "round_run quiet_machine 4 example_round s"
    by blast
  note facts = workers_write_disjoint_slots [OF run]
  have d: "distinct (written example_round)"
    by (rule facts [THEN conjunct2, THEN conjunct2, THEN conjunct2, THEN conjunct1])
  have split: "example_round = take 12 example_round @ Sum Single (Fin 64000000000)
      # drop 13 example_round"
    by (simp add: example_round_def)
  have j: "(3 :: nat) < nat (sint (4 :: cint))"
    by simp
  have "Join Single 3 \<in> set (take 12 example_round)"
    using facts [THEN conjunct2, THEN conjunct2, THEN conjunct2, THEN conjunct2,
      THEN conjunct1, rule_format, OF split j]
    by (rule conjunct1)
  moreover have "written example_round
       = [(Single, 1), (Single, 0), (Single, 3), (Single, 2),
          (Double, 3), (Double, 2), (Double, 1), (Double, 0)]"
    by (simp add: example_round_def)
  ultimately show ?thesis
    using run d by (intro conjI exI [of _ s])
qed

text \<open>
  Claim C10. In every round, under every interleaving: when a double-precision worker is
  spawned, all \<open>N\<close> single-precision workers have been spawned and joined and their
  result_slots have been summed; and every worker of either phase is given the same thread_share,
  the one value of \<open>ITERATIONS / num_threads\<close> computed before the first phase.
\<close>

theorem single_phase_completes_before_double:
  assumes "round_run m n evs s"
  shows "(\<forall>pre i sh post j. evs = pre @ Spawn Double i sh # post \<longrightarrow> j < nat (sint n) \<longrightarrow>
            (\<exists>t. Sum Single t \<in> set pre)
            \<and> Spawn Single j sh \<in> set pre \<and> Join Single j \<in> set pre)
     \<and> (\<forall>pre i sh post. evs = pre @ Spawn Double i sh # post \<longrightarrow>
            (\<exists>t. Sum Single t \<in> set pre))
     \<and> (\<forall>p i sh. Spawn p i sh \<in> set evs \<longrightarrow> iterations_per_thread n = Some sh)"
proof -
  from assms obtain sh0 where sh0: "iterations_per_thread n = Some sh0"
    and inv: "round_inv m n sh0 evs s"
    by (rule round_run_inv)
  have "\<forall>p i sh. Spawn p i sh \<in> set evs \<longrightarrow> iterations_per_thread n = Some sh"
    using round_invD(8) [OF inv] sh0 by blast
  then show ?thesis
    using double_after_single [OF assms] by blast
qed

theorem single_phase_completes_before_double_witness:
  "(\<exists>s. round_run quiet_machine 4 example_round s)
   \<and> (\<exists>t. Sum Single t \<in> set (take 13 example_round))
   \<and> Spawn Single 3 25000000 \<in> set (take 13 example_round)
   \<and> Join Single 3 \<in> set (take 13 example_round)
   \<and> iterations_per_thread 4 = Some 25000000"
proof -
  from example_round_runs obtain s where run: "round_run quiet_machine 4 example_round s"
    by blast
  note facts = single_phase_completes_before_double [OF run]
  have split: "example_round = take 13 example_round @ Spawn Double 0 25000000
      # drop 14 example_round"
    by (simp add: example_round_def)
  have j: "(3 :: nat) < nat (sint (4 :: cint))"
    by simp
  have before: "(\<exists>t. Sum Single t \<in> set (take 13 example_round))
      \<and> Spawn Single 3 25000000 \<in> set (take 13 example_round)
      \<and> Join Single 3 \<in> set (take 13 example_round)"
    by (rule facts [THEN conjunct1, rule_format, OF split j])
  have "Spawn Double 0 25000000 \<in> set example_round"
    by (simp add: example_round_def)
  then have "iterations_per_thread 4 = Some 25000000"
    by (rule facts [THEN conjunct2, THEN conjunct2, rule_format])
  then show ?thesis
    using run before by (intro conjI exI [of _ s]) simp_all
qed

section \<open>The aggregate and the order of the values\<close>

text \<open>
  The claim as stated fails on the order: with four workers, two of which take 15/8
  seconds and two 1/8 second, the same four throughput values add up to different
  totals when the slow workers have the ids 0 and 1 and when they have the ids 2 and 3.
\<close>

theorem aggregate_order_counterexample:
  "mset (worker_results slow_first 4 Single 25000000)
     = mset (worker_results slow_last 4 Single 25000000)
   \<and> total_of (worker_results slow_first 4 Single 25000000) = Fin (8947848533333333 / 65536)
   \<and> total_of (worker_results slow_last 4 Single 25000000) = Fin (4473924266666667 / 32768)
   \<and> total_of (worker_results slow_first 4 Single 25000000)
       \<noteq> total_of (worker_results slow_last 4 Single 25000000)"
  unfolding results_slow_first results_slow_last total_slow_first total_slow_last
  by simp


text \<open>
  Claim C4, as amended. In every round the reported total of a precision is the sum of
  the \<open>N\<close> per-worker throughput values taken in \<open>double\<close>, from zero, in the order of the
  worker ids; slot \<open>i\<close> holds the value of worker \<open>i\<close>, so the total does not depend on
  the order in which the workers finish. It is the exact sum, and the same for every
  order of the values, when the values are whole numbers whose sum is below \<open>2 ^ 53\<close>.
\<close>

theorem aggregate_is_indexed_sum:
  assumes "avx512f m" and "N \<in> {4, 8, 16}" and "iterations_per_thread N = Some share"
  shows "printed (run_multithread_benchmark m N start) =
       [Round_header (sint N),
        Result_line Single
          (gflops (foldl (fadd binary64) (Fin 0) (worker_results m N Single share))),
        Result_line Double
          (gflops (foldl (fadd binary64) (Fin 0) (worker_results m N Double share)))]
     \<and> (\<forall>p. length (worker_results m N p share) = nat (sint N))
     \<and> (\<forall>p. \<forall>i < nat (sint N). worker_results m N p share ! i
            = returned (benchmark_of p share (elapsed_of m (Worker N p i))))
     \<and> (\<forall>evs s pre p t post. round_run m N evs s \<longrightarrow> evs = pre @ Sum p t # post \<longrightarrow>
            t = total_of (worker_results m N p share))
     \<and> (\<forall>ns ns'. sum_list ns < 2 ^ 53 \<longrightarrow> mset ns' = mset ns \<longrightarrow>
            total_of (map (\<lambda>n. Fin (of_nat n)) ns) = Fin (of_nat (sum_list ns))
            \<and> total_of (map (\<lambda>n. Fin (of_nat n)) ns') = Fin (of_nat (sum_list ns)))"
proof -
  have any_order: "\<forall>evs s pre p t post. round_run m N evs s \<longrightarrow> evs = pre @ Sum p t # post \<longrightarrow>
            t = total_of (worker_results m N p share)"
  proof (intro allI impI)
    fix evs s pre p t post
    assume "round_run m N evs s" and "evs = pre @ Sum p t # post"
    then have "\<exists>sh. iterations_per_thread N = Some sh \<and> t = total_of (worker_results m N p sh)"
      by (rule sum_is_total)
    then show "t = total_of (worker_results m N p share)"
      using assms(3) by auto
  qed
  have "0 \<le> sint N"
    using assms(2) by auto
  then have "printed (run_multithread_benchmark m N start) =
       [Round_header (sint N),
        Result_line Single
          (gflops (foldl (fadd binary64) (Fin 0) (worker_results m N Single share))),
        Result_line Double
          (gflops (foldl (fadd binary64) (Fin 0) (worker_results m N Double share)))]"
    using assms(1,3)
    by (simp add: printed_round round_lines_def total_of_def)
  moreover have "\<forall>ns ns'. sum_list ns < 2 ^ 53 \<longrightarrow> mset ns' = mset ns \<longrightarrow>
            total_of (map (\<lambda>n. Fin (of_nat n)) ns) = Fin (of_nat (sum_list ns))
            \<and> total_of (map (\<lambda>n. Fin (of_nat n)) ns') = Fin (of_nat (sum_list ns))"
  proof (intro allI impI)
    fix ns ns' :: "nat list"
    assume b: "sum_list ns < 2 ^ 53" and p: "mset ns' = mset ns"
    have "sum_list ns' = sum_list ns"
      using p by (metis sum_mset_sum_list)
    then show "total_of (map (\<lambda>n. Fin (of_nat n)) ns) = Fin (of_nat (sum_list ns))
            \<and> total_of (map (\<lambda>n. Fin (of_nat n)) ns') = Fin (of_nat (sum_list ns))"
      using b total_of_nats [of ns] total_of_nats [of ns'] by simp
  qed
  ultimately show ?thesis
    using worker_results_nth any_order by blast
qed

theorem aggregate_is_indexed_sum_witness:
  "avx512f quiet_machine \<and> (4 :: cint) \<in> {4, 8, 16}
   \<and> iterations_per_thread 4 = Some 25000000
   \<and> total_of [Fin 1000000000, Fin 1100000000, Fin 900000000, Fin 1000000000]
       = Fin 4000000000
   \<and> total_of [Fin 1100000000, Fin 1000000000, Fin 1000000000, Fin 900000000]
       = Fin 4000000000"
proof -
  let ?ns = "[1000000000, 1100000000, 900000000, 1000000000] :: nat list"
  let ?ns' = "[1100000000, 1000000000, 1000000000, 900000000] :: nat list"
  have h: "avx512f quiet_machine" "(4 :: cint) \<in> {4, 8, 16}"
    "iterations_per_thread 4 = Some 25000000"
    by (simp_all add: quiet_machine_def shares_of_levels)
  have "sum_list ?ns < 2 ^ 53" "mset ?ns' = mset ?ns"
    by simp_all
  with aggregate_is_indexed_sum [OF h]
  have "total_of (map (\<lambda>n. Fin (of_nat n)) ?ns) = Fin (of_nat (sum_list ?ns))
      \<and> total_of (map (\<lambda>n. Fin (of_nat n)) ?ns') = Fin (of_nat (sum_list ?ns))"
    by blast
  then show ?thesis
    using h by simp
qed

section \<open>Properties of the split\<close>

lemma worker_shares_levels:
  "N \<in> {4, 8, 16} \<Longrightarrow>
     worker_shares T N = Some (replicate (nat (sint N)) (T div scast N))"
  by (auto simp: worker_shares_def worker_ids_def per_thread_share_def map_replicate_const)

lemma unat_share_levels:
  "N \<in> {4, 8, 16} \<Longrightarrow>
     unat ((T :: size_t) div (scast (N :: cint) :: size_t)) = unat T div nat (sint N)"
  by (auto simp: unat_div)

lemma share_of_levels:
  "N \<in> {4, 8, 16} \<Longrightarrow> iterations_per_thread N = Some (ITERATIONS div scast N)"
  by (auto simp: iterations_per_thread_def per_thread_share_def)

lemma round_calls:
  assumes "avx512f m" and "N \<in> {4, 8, 16}"
  shows "calls (run_multithread_benchmark m N start)
     = map (\<lambda>i. (Worker N Single i, ITERATIONS div scast N)) [0 ..< nat (sint N)]
       @ map (\<lambda>i. (Worker N Double i, ITERATIONS div scast N)) [0 ..< nat (sint N)]"
proof -
  have "0 \<le> sint N"
    using assms(2) by auto
  then show ?thesis
    using assms(1) share_of_levels [OF assms(2)]
    by (simp add: calls_round worker_calls_def worker_ids_def)
qed

text \<open>
  Claim C2. At each of the worker counts 4, 8 and 16 and for every iteration budget \<open>T\<close>,
  every one of the \<open>N\<close> workers is given \<open>T / N\<close> iterations (unsigned integer
  division); the work done by all workers together is \<open>N * (T / N)\<close>, which is at most
  \<open>T\<close>, and what is dropped, \<open>T - N * (T / N)\<close>, is the remainder of the division and
  goes to no worker. For the budget of the program, 100000000, the shares are 25000000,
  12500000 and 6250000, and these are the iteration counts the kernels of a round are
  called with, the \<open>N\<close> workers of the first phase and the \<open>N\<close> workers of the second.
\<close>

theorem per_worker_share_is_integer_quotient:
  fixes T :: size_t and N :: cint
  assumes "N \<in> {4, 8, 16}"
  shows "(\<exists>shares. worker_shares T N = Some shares
           \<and> length shares = nat (sint N)
           \<and> set shares = {T div scast N}
           \<and> unat (T div (scast N :: size_t)) = unat T div nat (sint N)
           \<and> sum_list (map unat shares) = nat (sint N) * (unat T div nat (sint N))
           \<and> sum_list (map unat shares) \<le> unat T
           \<and> unat T - sum_list (map unat shares) = unat T mod nat (sint N))
         \<and> iterations_per_thread 4 = Some 25000000
         \<and> iterations_per_thread 8 = Some 12500000
         \<and> iterations_per_thread 16 = Some 6250000
         \<and> (avx512f m \<longrightarrow>
              calls (run_multithread_benchmark m N start)
                = map (\<lambda>i. (Worker N Single i, ITERATIONS div scast N)) [0 ..< nat (sint N)]
                  @ map (\<lambda>i. (Worker N Double i, ITERATIONS div scast N)) [0 ..< nat (sint N)])"
proof -
  let ?n = "nat (sint N)"
  let ?q = "T div scast N"
  have n: "0 < ?n"
    using assms by auto
  have q: "unat ?q = unat T div ?n"
    using assms by (rule unat_share_levels)
  have work: "sum_list (map unat (replicate ?n ?q)) = ?n * (unat T div ?n)"
    by (simp add: sum_list_replicate q)
  have "worker_shares T N = Some (replicate ?n ?q)"
    using assms by (rule worker_shares_levels)
  moreover have "set (replicate ?n ?q) = {?q}"
    using n by simp
  moreover have "sum_list (map unat (replicate ?n ?q)) \<le> unat T"
    unfolding work by simp
  moreover have "unat T - sum_list (map unat (replicate ?n ?q)) = unat T mod ?n"
    unfolding work by (simp add: minus_mult_div_eq_mod)
  ultimately have "\<exists>shares. worker_shares T N = Some shares
           \<and> length shares = nat (sint N)
           \<and> set shares = {T div scast N}
           \<and> unat (T div (scast N :: size_t)) = unat T div nat (sint N)
           \<and> sum_list (map unat shares) = nat (sint N) * (unat T div nat (sint N))
           \<and> sum_list (map unat shares) \<le> unat T
           \<and> unat T - sum_list (map unat shares) = unat T mod nat (sint N)"
    using work q by simp
  then show ?thesis
    using shares_of_levels round_calls [OF _ assms, of m] by blast
qed

text \<open>
  A budget that does not divide: 100000003 iterations for 8 workers leave 3 undone; and
  the sixteen kernel calls of the round with 8 workers each get 12500000 iterations.
\<close>

theorem per_worker_share_witness:
  "(8 :: cint) \<in> {4, 8, 16} \<and> avx512f quiet_machine
   \<and> worker_shares 100000003 8 = Some (replicate 8 12500000)
   \<and> unat (100000003 :: size_t) - sum_list (map unat (replicate 8 (12500000 :: size_t))) = 3
   \<and> map snd (calls (run_multithread_benchmark quiet_machine 8 start))
       = replicate 16 12500000"
proof -
  have N: "(8 :: cint) \<in> {4, 8, 16}" by simp
  have m: "avx512f quiet_machine" by (simp add: quiet_machine_def)
  note facts = per_worker_share_is_integer_quotient [OF N, of 100000003 quiet_machine]
  from facts obtain shares where "worker_shares 100000003 8 = Some shares"
    and "unat (100000003 :: size_t) - sum_list (map unat shares)
      = unat (100000003 :: size_t) mod nat (sint (8 :: cint))"
    by blast
  moreover have "worker_shares 100000003 8 = Some (replicate 8 12500000)"
    by (simp add: worker_shares_def worker_ids_def per_thread_share_def map_replicate_const)
  ultimately have rest: "unat (100000003 :: size_t)
      - sum_list (map unat (replicate 8 (12500000 :: size_t))) = 3"
    by simp
  from facts m have "calls (run_multithread_benchmark quiet_machine 8 start)
      = map (\<lambda>i. (Worker 8 Single i, ITERATIONS div scast (8 :: cint))) [0 ..< nat (sint (8 :: cint))]
        @ map (\<lambda>i. (Worker 8 Double i, ITERATIONS div scast (8 :: cint))) [0 ..< nat (sint (8 :: cint))]"
    by blast
  then have "map snd (calls (run_multithread_benchmark quiet_machine 8 start))
      = replicate 16 12500000"
    by (simp add: ITERATIONS_def comp_def map_replicate_const replicate_add [symmetric])
  with N m rest \<open>worker_shares 100000003 8 = Some (replicate 8 12500000)\<close> show ?thesis
    by simp
qed

end
